theory Spec2Isabelle
  imports Complex_Main "HOL-Library.Multiset" "HOL-Library.Sublist"
begin

section \<open>Python values shared by both scripts\<close>

text \<open>
  Both scripts end a run by raising: \<^verbatim>\<open>SystemExit(message)\<close> at their own checks,
  \<^verbatim>\<open>KeyError\<close> in \<^verbatim>\<open>generate_prompt\<close>, and the exceptions of the built-ins they
  call (\<^verbatim>\<open>int\<close>, \<^verbatim>\<open>dict\<close>, \<^verbatim>\<open>random.sample\<close>, \<^verbatim>\<open>.get\<close> on a non-mapping).
  Every one of them is a value of \<open>error\<close>; a function that can raise returns
  \<open>error + 'a\<close> with \<open>Inl\<close> for the exception. The messages are the scripts',
  character by character; the apostrophe they put around an interpolated name is
  \<open>CHR 0x27\<close>.
\<close>

datatype error =
    SystemExit string
  | KeyError string
  | ValueError
  | TypeError
  | AttributeError

text \<open>
  A Python \<^verbatim>\<open>dict\<close> keeps insertion order, and the scripts depend on it (first match
  by role, sampling order), so a dict is an association list. \<open>dict_set\<close> is
  \<^verbatim>\<open>d[k] = v\<close>: an existing key keeps its position, a new key goes to the end.
  \<open>setdefault\<close> is \<^verbatim>\<open>d.setdefault(k, v)\<close>, returning the dict after the call, and
  \<open>get_default\<close> is \<^verbatim>\<open>d.get(k, dflt)\<close>.
\<close>

fun dict_set :: "'k \<Rightarrow> 'v \<Rightarrow> ('k \<times> 'v) list \<Rightarrow> ('k \<times> 'v) list" where
  "dict_set k v [] = [(k, v)]"
| "dict_set k v (p # ps) = (if fst p = k then (k, v) # ps else p # dict_set k v ps)"

definition get_default :: "('k \<times> 'v) list \<Rightarrow> 'k \<Rightarrow> 'v \<Rightarrow> 'v" where
  "get_default d k dflt = (case map_of d k of None \<Rightarrow> dflt | Some v \<Rightarrow> v)"

definition setdefault :: "'k \<Rightarrow> 'v \<Rightarrow> ('k \<times> 'v) list \<Rightarrow> ('k \<times> 'v) list" where
  "setdefault k v d = (case map_of d k of None \<Rightarrow> d @ [(k, v)] | Some _ \<Rightarrow> d)"

section \<open>The random source\<close>

text \<open>
  The module \<^verbatim>\<open>random\<close> is Python's library, not code of the repository. Its generator
  is a parameter of the model: a state \<open>'g\<close> and a step \<open>nxt\<close> that returns the next raw
  number with the next state. \<open>randbelow\<close> reduces a raw number below \<open>n\<close>.
  \<open>random_sample\<close> follows the library's \<^verbatim>\<open>sample(population, k)\<close> in its pool form:
  it raises \<^verbatim>\<open>ValueError\<close> when \<open>k\<close> exceeds the population, and otherwise picks \<open>k\<close>
  times a position of the pool, moving the pool's last entry into the vacancy.
  Positions are drawn, never values: a value that occurs twice in the population can be
  drawn twice. The library takes this form for a population of at most 21 entries
  (more when \<open>k\<close> is above 5); for a larger one it draws positions of the population
  itself and rejects those it has drawn before. Both forms return the values at \<open>k\<close>
  different positions, in the order drawn. The generator being a parameter, the pool
  form stands for both: for any \<open>k\<close> different positions there is a raw sequence under
  which it draws them in their order (\<open>random_sample_any_positions\<close> below).
\<close>

definition randbelow :: "('g \<Rightarrow> nat \<times> 'g) \<Rightarrow> nat \<Rightarrow> 'g \<Rightarrow> nat \<times> 'g" where
  "randbelow nxt n g = (case nxt g of (r, g') \<Rightarrow> (r mod n, g'))"

fun sample_loop :: "('g \<Rightarrow> nat \<times> 'g) \<Rightarrow> 'a list \<Rightarrow> nat \<Rightarrow> 'g \<Rightarrow> 'a list \<times> 'g" where
  "sample_loop nxt pool 0 g = ([], g)"
| "sample_loop nxt pool (Suc k) g =
     (if pool = [] then ([], g)
      else case randbelow nxt (length pool) g of
        (j, g') \<Rightarrow>
          (case sample_loop nxt (butlast (pool[j := last pool])) k g' of
            (rest, g'') \<Rightarrow> (pool ! j # rest, g'')))"

definition random_sample ::
  "('g \<Rightarrow> nat \<times> 'g) \<Rightarrow> 'a list \<Rightarrow> nat \<Rightarrow> 'g \<Rightarrow> error + ('a list \<times> 'g)" where
  "random_sample nxt population k g =
     (if k > length population then Inl ValueError
      else Inr (sample_loop nxt population k g))"

section \<open>generate_case_prompt.py\<close>

subsection \<open>Pool documents and the merged pool\<close>

type_synonym subcats = "(string \<times> string list) list"
type_synonym subcat_sources = "(string \<times> (string \<times> string list) list) list"

text \<open>
  The merged pool is the dict \<^verbatim>\<open>combined\<close> that \<^verbatim>\<open>_load_pools\<close> returns: the sections by
  name, and under fixed keys the negative base list, the optional negative groups, the
  style presets and the provenance table \<^verbatim>\<open>_sources\<close>. \<^verbatim>\<open>generate_prompt\<close> reads
  \<^verbatim>\<open>negative_base\<close> and \<^verbatim>\<open>negative_optional\<close> by subscript (a missing key raises), the
  other two with \<^verbatim>\<open>.get\<close> and an empty default.
\<close>

record pools =
  sections :: "(string \<times> subcats) list"
  negative_base :: "string list option"
  negative_optional :: "(string \<times> string list) list option"
  style_presets :: "(string \<times> (string \<times> string list) list) list"
  sources :: "(string \<times> subcat_sources) list"

text \<open>
  \<^verbatim>\<open>merge_section\<close> works on the two dicts \<^verbatim>\<open>combined\<close> and \<^verbatim>\<open>sources\<close> of the enclosing
  call; the model passes them as a pair. \<open>merge_values\<close> is its inner loop over
  \<^verbatim>\<open>values\<close>, \<open>merge_keys\<close> the loop over \<^verbatim>\<open>additions.items()\<close> and \<open>merge_key\<close> the
  body of that loop.
\<close>

fun merge_values :: "string list \<Rightarrow> string list \<times> string list \<Rightarrow> string list \<times> string list" where
  "merge_values [] (dest_list, mode_list) = (dest_list, mode_list)"
| "merge_values (value # values) (dest_list, mode_list) =
     merge_values values
       (if value \<notin> set dest_list then dest_list @ [value] else dest_list,
        if value \<notin> set mode_list then mode_list @ [value] else mode_list)"

definition merge_key ::
  "string \<Rightarrow> string \<Rightarrow> string list \<Rightarrow> subcats \<times> subcat_sources \<Rightarrow> subcats \<times> subcat_sources" where
  "merge_key mode_name key values st =
     (case st of (dest_section, source_section) \<Rightarrow>
        (let dest_section1 = setdefault key [] dest_section;
             dest_list = get_default dest_section1 key [];
             source_section1 = setdefault key [] source_section;
             source_modes = setdefault mode_name [] (get_default source_section1 key []);
             mode_list = get_default source_modes mode_name []
         in case merge_values values (dest_list, mode_list) of
              (dest_list', mode_list') \<Rightarrow>
                (dict_set key dest_list' dest_section1,
                 dict_set key (dict_set mode_name mode_list' source_modes) source_section1)))"

fun merge_keys ::
  "string \<Rightarrow> subcats \<Rightarrow> subcats \<times> subcat_sources \<Rightarrow> subcats \<times> subcat_sources" where
  "merge_keys mode_name [] st = st"
| "merge_keys mode_name ((key, values) # additions) st =
     merge_keys mode_name additions (merge_key mode_name key values st)"

type_synonym merge_state = "(string \<times> subcats) list \<times> (string \<times> subcat_sources) list"

definition merge_section :: "string \<Rightarrow> subcats \<Rightarrow> string \<Rightarrow> merge_state \<Rightarrow> merge_state" where
  "merge_section section_name additions mode_name st =
     (case st of (combined, srcs) \<Rightarrow>
        (let combined1 = setdefault section_name [] combined;
             srcs1 = setdefault section_name [] srcs
         in case merge_keys mode_name additions
                   (get_default combined1 section_name [], get_default srcs1 section_name []) of
              (dest_section, source_section) \<Rightarrow>
                (dict_set section_name dest_section combined1,
                 dict_set section_name source_section srcs1)))"

fun merge_mode :: "(string \<times> subcats) list \<Rightarrow> string \<Rightarrow> merge_state \<Rightarrow> merge_state" where
  "merge_mode [] mode st = st"
| "merge_mode ((section_name, section_values) # additions) mode st =
     merge_mode additions mode (merge_section section_name section_values mode st)"

text \<open>
  The loop \<^verbatim>\<open>for mode in modes\<close> of \<^verbatim>\<open>_load_pools\<close>: a mode that \<^verbatim>\<open>sets\<close> does not have
  ends the run with \<^verbatim>\<open>SystemExit\<close>. \<open>pools_path\<close> is the path of the pool file, which
  the messages name.
\<close>

fun merge_modes ::
  "string \<Rightarrow> (string \<times> (string \<times> subcats) list) list \<Rightarrow> string list \<Rightarrow> merge_state
     \<Rightarrow> error + merge_state" where
  "merge_modes pools_path sets [] st = Inr st"
| "merge_modes pools_path sets (mode # modes) st =
     (case map_of sets mode of
        None \<Rightarrow>
          Inl (SystemExit (''Pool mode '' @ CHR 0x27 # mode @ CHR 0x27 # '' not found in ''
                             @ pools_path))
      | Some additions \<Rightarrow> merge_modes pools_path sets modes (merge_mode additions mode st))"

text \<open>
  The parsed pool file. With no \<^verbatim>\<open>sets\<close> (absent or empty) \<^verbatim>\<open>_load_pools\<close> returns the
  document itself, whose top-level keys are then read as the pool: \<open>doc_flat\<close> is that
  reading. Otherwise \<^verbatim>\<open>negative_base\<close> and \<^verbatim>\<open>negative_optional\<close> are read by subscript
  and \<^verbatim>\<open>style_presets\<close> with a default.
\<close>

record pool_doc =
  doc_sets :: "(string \<times> (string \<times> subcats) list) list"
  doc_flat :: pools

definition load_pools :: "string \<Rightarrow> pool_doc option \<Rightarrow> string list \<Rightarrow> error + pools" where
  "load_pools pools_path file modes =
     (case file of
        None \<Rightarrow> Inl (SystemExit (''Pool file not found: '' @ pools_path))
      | Some data \<Rightarrow>
          if doc_sets data = [] then Inr (doc_flat data)
          else
            (case merge_modes pools_path (doc_sets data)
                    (if modes = [] then [''general''] else modes) ([], []) of
               Inl e \<Rightarrow> Inl e
             | Inr (combined, srcs) \<Rightarrow>
                 (case negative_base (doc_flat data) of
                    None \<Rightarrow> Inl (KeyError ''negative_base'')
                  | Some nb \<Rightarrow>
                      (case negative_optional (doc_flat data) of
                         None \<Rightarrow> Inl (KeyError ''negative_optional'')
                       | Some nopt \<Rightarrow>
                           Inr \<lparr>sections = combined,
                                negative_base = Some nb,
                                negative_optional = Some nopt,
                                style_presets = style_presets (doc_flat data),
                                sources = srcs\<rparr>))))"

subsection \<open>Sampling\<close>

definition pick_items ::
  "('g \<Rightarrow> nat \<times> 'g) \<Rightarrow> string list \<Rightarrow> int \<Rightarrow> string list \<Rightarrow> 'g \<Rightarrow> error + (string list \<times> 'g)" where
  "pick_items nxt options cnt preferred g =
     (if cnt \<le> 0 then Inr ([], g)
      else
        let available_preferred = filter (\<lambda>item. item \<in> set options) preferred in
        case (if available_preferred \<noteq> [] then
                (let take = min cnt (int (length available_preferred)) in
                 case random_sample nxt available_preferred (nat take) g of
                   Inl e \<Rightarrow> Inl e
                 | Inr (drawn, g') \<Rightarrow> Inr (drawn, cnt - take, g'))
              else Inr ([], cnt, g)) of
          Inl e \<Rightarrow> Inl e
        | Inr (chosen, cnt', g') \<Rightarrow>
            if cnt' \<le> 0 then Inr (chosen, g')
            else
              let remaining_pool = filter (\<lambda>item. item \<notin> set chosen) options in
              if remaining_pool = [] then Inr (chosen, g')
              else if cnt' \<ge> int (length remaining_pool) then Inr (chosen @ remaining_pool, g')
              else
                (case random_sample nxt remaining_pool (nat cnt') g' of
                   Inl e \<Rightarrow> Inl e
                 | Inr (drawn, g'') \<Rightarrow> Inr (chosen @ drawn, g'')))"

fun sample_section ::
  "('g \<Rightarrow> nat \<times> 'g) \<Rightarrow> subcats \<Rightarrow> (string \<rightharpoonup> int) \<Rightarrow> int \<Rightarrow> subcats \<Rightarrow> 'g
     \<Rightarrow> error + (string list \<times> 'g)" where
  "sample_section nxt [] overrides dflt preferred g = Inr ([], g)"
| "sample_section nxt ((key, options) # rest) overrides dflt preferred g =
     (let cnt = (case overrides key of None \<Rightarrow> dflt | Some c \<Rightarrow> c) in
      if cnt \<le> 0 then sample_section nxt rest overrides dflt preferred g
      else
        let pref_values = (if preferred \<noteq> [] then get_default preferred key [] else []) in
        case pick_items nxt options cnt pref_values g of
          Inl e \<Rightarrow> Inl e
        | Inr (picked, g') \<Rightarrow>
            (case sample_section nxt rest overrides dflt preferred g' of
               Inl e \<Rightarrow> Inl e
             | Inr (selections, g'') \<Rightarrow> Inr (picked @ selections, g'')))"

fun format_join :: "string \<Rightarrow> string list \<Rightarrow> string" where
  "format_join delimiter [] = []"
| "format_join delimiter [x] = x"
| "format_join delimiter (x # y # ys) = x @ delimiter @ format_join delimiter (y # ys)"

definition format_line :: "string \<Rightarrow> string list \<Rightarrow> bool \<Rightarrow> string \<Rightarrow> string" where
  "format_line name items flat delimiter =
     (if \<not> flat then name @ '': '' @ format_join delimiter items
      else format_join delimiter items)"

record CasePrompt =
  composition :: "string list"
  action :: "string list"
  subject :: "string list"
  environment :: "string list"
  negatives :: "string list"

definition as_lines :: "CasePrompt \<Rightarrow> bool \<Rightarrow> string \<Rightarrow> string list" where
  "as_lines p flat delimiter =
     [format_line ''Composition'' (composition p) flat delimiter,
      format_line ''Action'' (action p) flat delimiter,
      format_line ''Subject'' (subject p) flat delimiter,
      format_line ''Environment'' (environment p) flat delimiter]
     @ [format_line (if flat then [] else ''Negative Prompt'') (negatives p) flat delimiter]"

subsection \<open>generate_prompt\<close>

text \<open>
  \<open>build_preferred\<close> is the closure of that name: for every subcategory of the section
  it concatenates what each preferred mode contributed, in the order of the modes, and
  keeps the subcategories for which that is not empty.
\<close>

fun preferred_entries :: "string list \<Rightarrow> subcat_sources \<Rightarrow> subcats \<Rightarrow> subcats" where
  "preferred_entries preferred_modes [] preferred_map = preferred_map"
| "preferred_entries preferred_modes ((key, mode_map) # rest) preferred_map =
     (let selections = concat (map (\<lambda>mode. get_default mode_map mode []) preferred_modes)
      in preferred_entries preferred_modes rest
           (if selections \<noteq> [] then dict_set key selections preferred_map else preferred_map))"

definition build_preferred ::
  "string list \<Rightarrow> (string \<times> subcat_sources) list \<Rightarrow> string \<Rightarrow> subcats" where
  "build_preferred preferred_modes srcs section_name =
     (if preferred_modes = [] then []
      else preferred_entries preferred_modes (get_default srcs section_name []) [])"

fun extend_unique :: "string list \<Rightarrow> string list \<Rightarrow> string list" where
  "extend_unique target [] = target"
| "extend_unique target (item # additions) =
     extend_unique (if item \<notin> set target then target @ [item] else target) additions"

definition pool_section :: "pools \<Rightarrow> string \<Rightarrow> error + subcats" where
  "pool_section p name =
     (case map_of (sections p) name of None \<Rightarrow> Inl (KeyError name) | Some s \<Rightarrow> Inr s)"

fun extend_groups ::
  "(string \<times> string list) list \<Rightarrow> string list \<Rightarrow> string list \<Rightarrow> error + string list" where
  "extend_groups optional_pool [] negs = Inr negs"
| "extend_groups optional_pool (grp # groups) negs =
     (case map_of optional_pool grp of
        None \<Rightarrow> Inl (KeyError (''Unknown negative group '' @ CHR 0x27 # grp @ [CHR 0x27]))
      | Some extra \<Rightarrow> extend_groups optional_pool groups (negs @ extra))"

text \<open>
  The arguments of \<^verbatim>\<open>generate_prompt\<close>. \<^verbatim>\<open>modes\<close>, the override mappings and
  \<^verbatim>\<open>negative_groups\<close> default to \<^verbatim>\<open>None\<close> and are read through \<^verbatim>\<open>x or {}\<close>, so an absent
  one is the empty value here; \<^verbatim>\<open>seed\<close> and \<^verbatim>\<open>style_preset\<close> stay optional.
\<close>

record prompt_args =
  modes :: "string list"
  seed :: "int option"
  composition_overrides :: "string \<rightharpoonup> int"
  action_overrides :: "string \<rightharpoonup> int"
  subject_overrides :: "string \<rightharpoonup> int"
  environment_overrides :: "string \<rightharpoonup> int"
  negative_groups :: "string list"
  style_preset :: "string option"
  default_count :: int

text \<open>
  \<open>sample_all\<close> is the four calls of \<^verbatim>\<open>_sample_section\<close> in their order, threading the
  generator; \<open>apply_preset\<close> the block under \<^verbatim>\<open>if style_preset\<close>; \<open>build_negatives\<close>
  the construction of \<^verbatim>\<open>negatives\<close>.
\<close>

definition sample_named ::
  "('g \<Rightarrow> nat \<times> 'g) \<Rightarrow> pools \<Rightarrow> string \<Rightarrow> (string \<rightharpoonup> int) \<Rightarrow> int \<Rightarrow> subcats \<Rightarrow> 'g
     \<Rightarrow> error + (string list \<times> 'g)" where
  "sample_named nxt p name overrides dflt preferred g =
     (case pool_section p name of
        Inl e \<Rightarrow> Inl e
      | Inr s \<Rightarrow> sample_section nxt s overrides dflt preferred g)"

definition sample_all ::
  "('g \<Rightarrow> nat \<times> 'g) \<Rightarrow> pools \<Rightarrow> prompt_args \<Rightarrow> 'g
     \<Rightarrow> error + ((string list \<times> string list \<times> string list \<times> string list) \<times> 'g)" where
  "sample_all nxt p a g =
     (let preferred_modes = filter (\<lambda>mode. mode \<noteq> ''general'') (modes a);
          pref = build_preferred preferred_modes (sources p);
          d = default_count a
      in
      (case sample_named nxt p ''composition'' (composition_overrides a) d (pref ''composition'') g of
         Inl e \<Rightarrow> Inl e
       | Inr (c, g1) \<Rightarrow>
      (case sample_named nxt p ''action'' (action_overrides a) d (pref ''action'') g1 of
         Inl e \<Rightarrow> Inl e
       | Inr (ac, g2) \<Rightarrow>
      (case sample_named nxt p ''subject'' (subject_overrides a) d (pref ''subject'') g2 of
         Inl e \<Rightarrow> Inl e
       | Inr (su, g3) \<Rightarrow>
      (case sample_named nxt p ''environment'' (environment_overrides a) d (pref ''environment'') g3 of
         Inl e \<Rightarrow> Inl e
       | Inr (en, g4) \<Rightarrow> Inr ((c, ac, su, en), g4))))))"

definition preset_lookup ::
  "pools \<Rightarrow> string option \<Rightarrow> error + (string \<times> string list) list option" where
  "preset_lookup p sp =
     (case sp of
        None \<Rightarrow> Inr None
      | Some name \<Rightarrow>
          if name = [] then Inr None
          else (case map_of (style_presets p) name of
                  None \<Rightarrow>
                    Inl (KeyError (''Unknown style preset '' @ CHR 0x27 # name @ CHR 0x27 # ''.''))
                | Some preset_data \<Rightarrow> Inr (Some preset_data)))"

definition apply_preset ::
  "(string \<times> string list) list option \<Rightarrow> string \<Rightarrow> string list \<Rightarrow> string list" where
  "apply_preset preset_data name target =
     (case preset_data of
        None \<Rightarrow> target
      | Some pd \<Rightarrow> extend_unique target (get_default pd name []))"

definition build_negatives ::
  "pools \<Rightarrow> string list \<Rightarrow> (string \<times> string list) list option \<Rightarrow> error + string list" where
  "build_negatives p groups preset_data =
     (case negative_base p of
        None \<Rightarrow> Inl (KeyError ''negative_base'')
      | Some nb \<Rightarrow>
          (case negative_optional p of
             None \<Rightarrow> Inl (KeyError ''negative_optional'')
           | Some optional_pool \<Rightarrow>
               (case extend_groups optional_pool groups nb of
                  Inl e \<Rightarrow> Inl e
                | Inr negs \<Rightarrow>
                    (case preset_data of
                       None \<Rightarrow> Inr negs
                     | Some pd \<Rightarrow>
                         if pd = [] then Inr negs
                         else Inr (negs @ get_default pd ''negative'' [])))))"

text \<open>
  \<^verbatim>\<open>generate_prompt\<close> on pools that are given. The process-wide generator state is
  the argument \<open>g\<close>; \<^verbatim>\<open>random.seed(seed)\<close> is the library's and enters as the parameter
  \<open>sd\<close>. The result carries the generator state the call leaves behind.
\<close>

definition generate_prompt ::
  "('g \<Rightarrow> nat \<times> 'g) \<Rightarrow> (int \<Rightarrow> 'g) \<Rightarrow> pools \<Rightarrow> prompt_args \<Rightarrow> 'g \<Rightarrow> error + (CasePrompt \<times> 'g)" where
  "generate_prompt nxt sd p a g =
     (let g0 = (case seed a of None \<Rightarrow> g | Some s \<Rightarrow> sd s) in
      case sample_all nxt p a g0 of
        Inl e \<Rightarrow> Inl e
      | Inr ((c, ac, su, en), g') \<Rightarrow>
          (case preset_lookup p (style_preset a) of
             Inl e \<Rightarrow> Inl e
           | Inr preset_data \<Rightarrow>
               (case build_negatives p (negative_groups a) preset_data of
                  Inl e \<Rightarrow> Inl e
                | Inr negs \<Rightarrow>
                    Inr (\<lparr>composition = apply_preset preset_data ''composition'' c,
                          action = apply_preset preset_data ''action'' ac,
                          subject = apply_preset preset_data ''subject'' su,
                          environment = apply_preset preset_data ''environment'' en,
                          negatives = negs\<rparr>, g'))))"

section \<open>apply_case_prompt.py\<close>

subsection \<open>The workflow document\<close>

text \<open>
  The workflow file is parsed by \<^verbatim>\<open>json.loads\<close>; a parsed value is a \<open>json\<close>. Floats
  are carried through the script without arithmetic and are modelled as rationals. An
  object is an association list in the order of the file. The graph is the top-level
  object: node id to node record.
\<close>

datatype json =
    JNull
  | JBool bool
  | JInt int
  | JFloat rat
  | JStr string
  | JList "json list"
  | JObj "(string \<times> json) list"

type_synonym graph = "(string \<times> json) list"

text \<open>
  \<^verbatim>\<open>dict(x)\<close> copies a mapping, accepts a sequence of pairs and raises on anything
  else. A pair is a two-element list, a string of two characters, or a mapping of two
  keys. The mappings of the model have string keys, as every mapping parsed from a
  workflow file has. Python also takes a pair whose key is a number, a truth value or
  \<^verbatim>\<open>null\<close>; a workflow whose \<^verbatim>\<open>inputs\<close> entry is an array with such a pair is outside
  the model, which ends with \<^verbatim>\<open>TypeError\<close> there as it does, with Python, for a key
  that is an array or an object.
\<close>

fun pair_of :: "json \<Rightarrow> error + (string \<times> json)" where
  "pair_of (JList [JStr k, v]) = Inr (k, v)"
| "pair_of (JList [_, _]) = Inl TypeError"
| "pair_of (JList _) = Inl ValueError"
| "pair_of (JStr [a, b]) = Inr ([a], JStr [b])"
| "pair_of (JStr _) = Inl ValueError"
| "pair_of (JObj [(a, _), (b, _)]) = Inr (a, JStr b)"
| "pair_of (JObj _) = Inl ValueError"
| "pair_of _ = Inl TypeError"

fun dict_of_pairs :: "json list \<Rightarrow> (string \<times> json) list \<Rightarrow> error + (string \<times> json) list" where
  "dict_of_pairs [] acc = Inr acc"
| "dict_of_pairs (x # xs) acc =
     (case pair_of x of Inl e \<Rightarrow> Inl e | Inr (k, v) \<Rightarrow> dict_of_pairs xs (dict_set k v acc))"

fun py_dict :: "json \<Rightarrow> error + (string \<times> json) list" where
  "py_dict (JObj flds) = Inr flds"
| "py_dict (JList xs) = dict_of_pairs xs []"
| "py_dict (JStr s) = dict_of_pairs (map (\<lambda>c. JStr [c]) s) []"
| "py_dict _ = Inl TypeError"

text \<open>
  \<open>is_class ct node\<close> is the test
  \<^verbatim>\<open>isinstance(node, dict) and node.get("class_type") == ct\<close>, and \<open>find_node_id\<close> the
  closure of that name: the id of the first node of the class in the order of the
  graph. The script tests the id it gets with \<^verbatim>\<open>if not node_id\<close>, which also holds for
  the empty string: \<open>truthy\<close> is that test.
\<close>

definition is_class :: "string \<Rightarrow> json \<Rightarrow> bool" where
  "is_class class_type node =
     (case node of
        JObj flds \<Rightarrow> map_of flds ''class_type'' = Some (JStr class_type)
      | _ \<Rightarrow> False)"

fun find_node_id :: "string \<Rightarrow> graph \<Rightarrow> string option" where
  "find_node_id class_type [] = None"
| "find_node_id class_type ((node_id, node) # rest) =
     (if is_class class_type node then Some node_id else find_node_id class_type rest)"

definition truthy :: "string option \<Rightarrow> string option" where
  "truthy x = (case x of None \<Rightarrow> None | Some s \<Rightarrow> if s = [] then None else Some s)"

text \<open>
  The script changes a node in one pattern, written out at each place:
  \<^verbatim>\<open>node = dict(data[id]); inputs = dict(node.get("inputs", {}))\<close>, then assignments to
  \<^verbatim>\<open>inputs\<close> (or \<^verbatim>\<open>inputs.update\<close>), then \<^verbatim>\<open>node["inputs"] = inputs; data[id] = node\<close>.
  \<open>merge_inputs\<close> is that pattern on one node record and \<open>update_node\<close> on the graph.
  The IPAdapter branch does not read the old inputs: it assigns the new mapping to
  \<^verbatim>\<open>node["inputs"]\<close>; \<open>replace_inputs\<close> and \<open>replace_node\<close> are that pattern.
  \<open>new_node\<close> is the literal \<^verbatim>\<open>{"class_type": ct, "inputs": {...}}\<close>.
\<close>

definition dict_update :: "(string \<times> json) list \<Rightarrow> (string \<times> json) list \<Rightarrow> (string \<times> json) list" where
  "dict_update kvs inputs = fold (\<lambda>kv d. dict_set (fst kv) (snd kv) d) kvs inputs"

definition node_inputs :: "(string \<times> json) list \<Rightarrow> error + (string \<times> json) list" where
  "node_inputs flds =
     (case map_of flds ''inputs'' of None \<Rightarrow> Inr [] | Some x \<Rightarrow> py_dict x)"

definition merge_inputs :: "(string \<times> json) list \<Rightarrow> json \<Rightarrow> error + json" where
  "merge_inputs kvs node =
     (case py_dict node of
        Inl e \<Rightarrow> Inl e
      | Inr flds \<Rightarrow>
          (case node_inputs flds of
             Inl e \<Rightarrow> Inl e
           | Inr inputs \<Rightarrow> Inr (JObj (dict_set ''inputs'' (JObj (dict_update kvs inputs)) flds))))"

definition replace_inputs :: "(string \<times> json) list \<Rightarrow> json \<Rightarrow> error + json" where
  "replace_inputs kvs node =
     (case py_dict node of
        Inl e \<Rightarrow> Inl e
      | Inr flds \<Rightarrow> Inr (JObj (dict_set ''inputs'' (JObj kvs) flds)))"

definition update_node :: "string \<Rightarrow> (string \<times> json) list \<Rightarrow> graph \<Rightarrow> error + graph" where
  "update_node node_id kvs data =
     (case map_of data node_id of
        None \<Rightarrow> Inl (KeyError node_id)
      | Some node \<Rightarrow>
          (case merge_inputs kvs node of
             Inl e \<Rightarrow> Inl e
           | Inr node' \<Rightarrow> Inr (dict_set node_id node' data)))"

definition replace_node :: "string \<Rightarrow> (string \<times> json) list \<Rightarrow> graph \<Rightarrow> error + graph" where
  "replace_node node_id kvs data =
     (case map_of data node_id of
        None \<Rightarrow> Inl (KeyError node_id)
      | Some node \<Rightarrow>
          (case replace_inputs kvs node of
             Inl e \<Rightarrow> Inl e
           | Inr node' \<Rightarrow> Inr (dict_set node_id node' data)))"

definition new_node :: "string \<Rightarrow> (string \<times> json) list \<Rightarrow> json" where
  "new_node class_type kvs = JObj [(''class_type'', JStr class_type), (''inputs'', JObj kvs)]"

definition ref :: "string \<Rightarrow> int \<Rightarrow> json" where
  "ref node_id slot = JList [JStr node_id, JInt slot]"

subsection \<open>Node ids\<close>

text \<open>
  \<^verbatim>\<open>str(n)\<close> and \<^verbatim>\<open>int(s)\<close> for the ids. \<open>py_str\<close> writes an integer in decimal.
  \<open>py_int\<close> reads what Python's \<^verbatim>\<open>int\<close> accepts in base ten: surrounding white
  space, an optional sign, decimal digits with single underscores between them; \<open>None\<close>
  is \<^verbatim>\<open>ValueError\<close>. A character of the model is a code point below 256. Among these
  \<^verbatim>\<open>int\<close> takes for white space the six of ASCII (tab, line feed, vertical tab, form
  feed, carriage return, space) and, outside ASCII, next line (133) and no-break space
  (160). The separators 28 to 31 are white space for \<^verbatim>\<open>str.strip\<close> but not for \<^verbatim>\<open>int\<close>,
  and no code point below 256 other than \<^verbatim>\<open>0\<close> to \<^verbatim>\<open>9\<close> is a decimal digit. The bound
  that recent interpreters put on the number of digits of a conversion (4300 by
  default) is left out.
\<close>

definition digit_char :: "nat \<Rightarrow> char" where
  "digit_char d = char_of (48 + d)"

fun str_nat :: "nat \<Rightarrow> string" where
  "str_nat n = (if n < 10 then [digit_char n] else str_nat (n div 10) @ [digit_char (n mod 10)])"

definition py_str :: "int \<Rightarrow> string" where
  "py_str i = (if i < 0 then CHR ''-'' # str_nat (nat (- i)) else str_nat (nat i))"

definition is_digit :: "char \<Rightarrow> bool" where
  "is_digit c = (48 \<le> (of_char c :: nat) \<and> (of_char c :: nat) \<le> 57)"

definition digit_val :: "char \<Rightarrow> nat" where
  "digit_val c = of_char c - 48"

definition is_space :: "char \<Rightarrow> bool" where
  "is_space c = ((of_char c :: nat) \<in> {9, 10, 11, 12, 13, 32, 133, 160})"

fun digits_val :: "nat \<Rightarrow> string \<Rightarrow> nat option" where
  "digits_val acc [] = Some acc"
| "digits_val acc (c # cs) =
     (if is_digit c then digits_val (10 * acc + digit_val c) cs
      else if c = CHR ''_'' \<and> cs \<noteq> [] \<and> is_digit (hd cs) then digits_val acc cs
      else None)"

definition parse_nat :: "string \<Rightarrow> nat option" where
  "parse_nat s = (if s \<noteq> [] \<and> is_digit (hd s) then digits_val 0 s else None)"

definition strip :: "string \<Rightarrow> string" where
  "strip s = rev (dropWhile is_space (rev (dropWhile is_space s)))"

definition py_int :: "string \<Rightarrow> int option" where
  "py_int s =
     (case strip s of
        [] \<Rightarrow> None
      | c # r \<Rightarrow>
          if c = CHR ''-'' then map_option (\<lambda>n. - int n) (parse_nat r)
          else if c = CHR ''+'' then map_option int (parse_nat r)
          else map_option int (parse_nat (c # r)))"

text \<open>
  \<open>existing_ids\<close> is \<^verbatim>\<open>{int(k) for k in data.keys()}\<close>, and \<open>next_id\<close> the closure of
  that name on the set it updates: it returns the id and the set after the call.
\<close>

definition existing_ids :: "graph \<Rightarrow> error + int set" where
  "existing_ids data =
     (if list_all (\<lambda>k. py_int k \<noteq> None) (map fst data)
      then Inr (set (map (\<lambda>k. the (py_int k)) (map fst data)))
      else Inl ValueError)"

definition next_id :: "int set \<Rightarrow> string \<times> int set" where
  "next_id ids =
     (let new_id = (if ids \<noteq> {} then Max ids + 1 else 1)
      in (py_str new_id, insert new_id ids))"

text \<open>
  The \<^verbatim>\<open>if not node_id: ... else: ...\<close> blocks of the ControlNet branch: a node of the
  class that was found is updated in place, otherwise a node with a new id is added.
  The result is the id, the id set and the graph.
\<close>

definition upsert ::
  "string option \<Rightarrow> string \<Rightarrow> (string \<times> json) list \<Rightarrow> int set \<Rightarrow> graph
     \<Rightarrow> error + (string \<times> int set \<times> graph)" where
  "upsert found class_type kvs ids data =
     (case truthy found of
        None \<Rightarrow>
          (case next_id ids of
             (new_id, ids') \<Rightarrow> Inr (new_id, ids', dict_set new_id (new_node class_type kvs) data))
      | Some node_id \<Rightarrow>
          (case update_node node_id kvs data of
             Inl e \<Rightarrow> Inl e
           | Inr data' \<Rightarrow> Inr (node_id, ids, data')))"

text \<open>The same blocks in the IPAdapter branch, which replace the inputs of a found node.\<close>

definition upsert_replace ::
  "string option \<Rightarrow> string \<Rightarrow> (string \<times> json) list \<Rightarrow> int set \<Rightarrow> graph
     \<Rightarrow> error + (string \<times> int set \<times> graph)" where
  "upsert_replace found class_type kvs ids data =
     (case truthy found of
        None \<Rightarrow>
          (case next_id ids of
             (new_id, ids') \<Rightarrow> Inr (new_id, ids', dict_set new_id (new_node class_type kvs) data))
      | Some node_id \<Rightarrow>
          (case replace_node node_id kvs data of
             Inl e \<Rightarrow> Inl e
           | Inr data' \<Rightarrow> Inr (node_id, ids, data')))"


subsection \<open>Arguments and the world outside\<close>

text \<open>
  The parsed command line (\<open>arg_x\<close> is \<^verbatim>\<open>args.x\<close>). An option without a default is
  \<^verbatim>\<open>None\<close> when absent; \<^verbatim>\<open>--flat\<close> is parsed but never read by \<^verbatim>\<open>main\<close>.
\<close>

record patch_args =
  arg_workflow :: string
  arg_output :: "string option"
  arg_seed :: "int option"
  arg_pos_node :: string
  arg_neg_node :: string
  arg_delimiter :: string
  arg_neg_groups :: "string list"
  arg_mode :: "string list option"
  arg_mature :: bool
  arg_style_preset :: "string option"
  arg_add_ipadapter :: bool
  arg_ipadapter_preset :: string
  arg_ipadapter_image :: "string option"
  arg_ipadapter_weight :: rat
  arg_ipadapter_weight_type :: string
  arg_ipadapter_combine :: string
  arg_ipadapter_start :: rat
  arg_ipadapter_end :: rat
  arg_ipadapter_embeds :: string
  arg_ipadapter_community :: bool
  arg_ipadapter_community_preset :: string
  arg_lora_strength_model :: "rat option"
  arg_lora_strength_clip :: "rat option"
  arg_clip_layer :: "int option"
  arg_add_controlnet :: bool
  arg_controlnet :: "string option"
  arg_control_image :: "string option"
  arg_control_strength :: rat
  arg_control_start :: rat
  arg_control_end :: rat
  arg_dry_run :: bool

text \<open>
  What the script does to the file system is a trace of operations, in the order it
  performs them; console output is left out. \<^verbatim>\<open>pathlib\<close> and the file system are not
  code of the repository and enter as parameters: \<open>pathlib\<close> holds the pure path
  functions (\<open>input_dir w\<close> is \<^verbatim>\<open>w.parent.parent / "input"\<close>), \<open>filesystem\<close> what the
  disk answers. The answers may depend on the operations performed so far, so the two
  tests in the branches take the trace. \<^verbatim>\<open>mkdir\<close>, \<^verbatim>\<open>copy2\<close> and \<^verbatim>\<open>write_text\<close> are
  taken to succeed.
\<close>

datatype fs_op =
    Mkdir string
  | Copy string string
  | WriteText string graph

record pathlib =
  expanduser :: "string \<Rightarrow> string"
  name_of :: "string \<Rightarrow> string"
  joinpath :: "string \<Rightarrow> string \<Rightarrow> string"
  input_dir :: "string \<Rightarrow> string"

record filesystem =
  path_exists :: "fs_op list \<Rightarrow> string \<Rightarrow> bool"
  same_file :: "fs_op list \<Rightarrow> string \<Rightarrow> string \<Rightarrow> bool"
  read_json :: "string \<Rightarrow> error + json"
  pool_path :: string
  pool_file :: "pool_doc option"

subsection \<open>The stages of main\<close>

text \<open>
  Text injection (the lines from \<^verbatim>\<open>json.loads\<close> to \<^verbatim>\<open>data[args.neg_node] = neg_node\<close>).
  Both nodes are read from the document before either is written.
\<close>

definition text_node :: "graph \<Rightarrow> string \<Rightarrow> error + (string \<times> json) list" where
  "text_node data node_id =
     (case map_of data node_id of
        Some (JObj flds) \<Rightarrow>
          if map_of flds ''class_type'' = Some (JStr ''CLIPTextEncode'') then Inr flds
          else Inl (SystemExit (''Node '' @ node_id @ '' is not a CLIPTextEncode block.''))
      | _ \<Rightarrow> Inl (SystemExit (''Node '' @ node_id @ '' is not a CLIPTextEncode block.'')))"

definition set_text :: "string \<Rightarrow> (string \<times> json) list \<Rightarrow> (string \<times> json) list \<Rightarrow> json" where
  "set_text text inputs flds =
     JObj (dict_set ''inputs'' (JObj (dict_set ''text'' (JStr text) inputs)) flds)"

definition inject_text :: "patch_args \<Rightarrow> string \<Rightarrow> string \<Rightarrow> json \<Rightarrow> error + graph" where
  "inject_text a positive_text negative_text doc =
     (case doc of
        JObj data \<Rightarrow>
          (case text_node data (arg_pos_node a) of
             Inl e \<Rightarrow> Inl e
           | Inr pos_node \<Rightarrow>
          (case text_node data (arg_neg_node a) of
             Inl e \<Rightarrow> Inl e
           | Inr neg_node \<Rightarrow>
          (case node_inputs pos_node of
             Inl e \<Rightarrow> Inl e
           | Inr pos_inputs \<Rightarrow>
          (case node_inputs neg_node of
             Inl e \<Rightarrow> Inl e
           | Inr neg_inputs \<Rightarrow>
               Inr (dict_set (arg_neg_node a) (set_text negative_text neg_inputs neg_node)
                     (dict_set (arg_pos_node a) (set_text positive_text pos_inputs pos_node)
                        data))))))
      | _ \<Rightarrow> Inl AttributeError)"

text \<open>
  The LoRA strength and CLIP stop layer overrides. \<open>lora_inputs\<close> is the assignments
  to \<^verbatim>\<open>lora_inputs\<close> that the two optional strengths make.
\<close>

definition lora_inputs :: "patch_args \<Rightarrow> (string \<times> json) list" where
  "lora_inputs a =
     (case arg_lora_strength_model a of
        None \<Rightarrow> [] | Some x \<Rightarrow> [(''strength_model'', JFloat x)])
     @ (case arg_lora_strength_clip a of
          None \<Rightarrow> [] | Some x \<Rightarrow> [(''strength_clip'', JFloat x)])"

definition lora_step :: "patch_args \<Rightarrow> graph \<Rightarrow> error + graph" where
  "lora_step a data =
     (if arg_lora_strength_model a \<noteq> None \<or> arg_lora_strength_clip a \<noteq> None then
        (case truthy (find_node_id ''LoraLoader'' data) of
           None \<Rightarrow> Inl (SystemExit ''LoRA loader node not found; cannot set strengths.'')
         | Some lora_id \<Rightarrow> update_node lora_id (lora_inputs a) data)
      else Inr data)"

definition clip_step :: "patch_args \<Rightarrow> graph \<Rightarrow> error + graph" where
  "clip_step a data =
     (case arg_clip_layer a of
        None \<Rightarrow> Inr data
      | Some layer \<Rightarrow>
          (case truthy (find_node_id ''CLIPSetLastLayer'' data) of
             None \<Rightarrow> Inl (SystemExit ''CLIPSetLastLayer node not found; cannot set stop layer.'')
           | Some clip_id \<Rightarrow> update_node clip_id [(''stop_at_clip_layer'', JInt layer)] data))"

text \<open>
  Both optional branches bring their reference image into the input directory in the
  same way: create the directory, test that the image exists, copy it unless it is
  already the destination. \<open>stage_image\<close> returns the expanded source path and the
  destination path, with the trace.
\<close>

definition stage_image ::
  "pathlib \<Rightarrow> filesystem \<Rightarrow> string \<Rightarrow> string \<Rightarrow> string \<Rightarrow> fs_op list
     \<Rightarrow> (error + (string \<times> string)) \<times> fs_op list" where
  "stage_image pl fs workflow_path image_path message tr =
     (let input_root = input_dir pl workflow_path;
          tr1 = tr @ [Mkdir input_root];
          source_image = expanduser pl image_path
      in if \<not> path_exists fs tr1 source_image then (Inl (SystemExit (message @ source_image)), tr1)
         else
           let dest_path = joinpath pl input_root (name_of pl source_image)
           in (Inr (source_image, dest_path),
               if \<not> same_file fs tr1 source_image dest_path
               then tr1 @ [Copy source_image dest_path] else tr1))"

definition apply_inputs ::
  "patch_args \<Rightarrow> string \<Rightarrow> string \<Rightarrow> (string \<times> json) list" where
  "apply_inputs a control_id image_id =
     [(''positive'', ref (arg_pos_node a) 0),
      (''negative'', ref (arg_neg_node a) 0),
      (''control_net'', ref control_id 0),
      (''image'', ref image_id 0),
      (''strength'', JFloat (arg_control_strength a)),
      (''start_percent'', JFloat (arg_control_start a)),
      (''end_percent'', JFloat (arg_control_end a))]"

text \<open>
  The ControlNet branch on the graph, once the arguments are known to be there and the
  image is staged as \<open>dest_name\<close>: the image-loader upsert, the applier upsert and the
  rewiring of the sampler. The loader upsert comes before the staging in the script,
  so it is in \<open>controlnet_step\<close>.
\<close>

definition controlnet_wire ::
  "patch_args \<Rightarrow> string \<Rightarrow> string option \<Rightarrow> string option \<Rightarrow> string \<Rightarrow> int set \<Rightarrow> graph
     \<Rightarrow> error + graph" where
  "controlnet_wire a dest_name image_id apply_id control_id ids data =
     (case upsert image_id ''LoadImage'' [(''image'', JStr dest_name)] ids data of
        Inl e \<Rightarrow> Inl e
      | Inr (image_id', ids', data') \<Rightarrow>
     (case upsert apply_id ''ControlNetApplyAdvanced'' (apply_inputs a control_id image_id')
             ids' data' of
        Inl e \<Rightarrow> Inl e
      | Inr (apply_id', ids'', data'') \<Rightarrow>
     (case truthy (find_node_id ''KSampler'' data'') of
        None \<Rightarrow> Inl (SystemExit ''KSampler node not found; cannot insert ControlNet.'')
      | Some sampler_id \<Rightarrow>
          update_node sampler_id
            [(''positive'', ref apply_id' 0), (''negative'', ref apply_id' 1)] data'')))"

definition controlnet_step ::
  "pathlib \<Rightarrow> filesystem \<Rightarrow> patch_args \<Rightarrow> graph \<Rightarrow> fs_op list
     \<Rightarrow> (error + graph) \<times> fs_op list" where
  "controlnet_step pl fs a data tr =
     (if \<not> arg_add_controlnet a then (Inr data, tr)
      else
        (case (truthy (arg_controlnet a), truthy (arg_control_image a)) of
           (Some controlnet, Some control_image) \<Rightarrow>
             (let control_id = find_node_id ''ControlNetLoader'' data;
                  image_id = find_node_id ''LoadImage'' data;
                  apply_id = find_node_id ''ControlNetApplyAdvanced'' data
              in
              (case existing_ids data of
                 Inl e \<Rightarrow> (Inl e, tr)
               | Inr ids \<Rightarrow>
              (case upsert control_id ''ControlNetLoader''
                      [(''control_net_name'', JStr controlnet)] ids data of
                 Inl e \<Rightarrow> (Inl e, tr)
               | Inr (control_id', ids', data') \<Rightarrow>
              (case stage_image pl fs (arg_workflow a) control_image
                      ''Control image not found: '' tr of
                 (Inl e, tr') \<Rightarrow> (Inl e, tr')
               | (Inr (source_image, dest_path), tr') \<Rightarrow>
                   (controlnet_wire a (name_of pl source_image) image_id apply_id control_id'
                      ids' data', tr')))))
         | _ \<Rightarrow>
             (Inl (SystemExit ''--add-controlnet requires --controlnet and --control-image''), tr)))"

definition advanced_inputs :: "patch_args \<Rightarrow> string \<Rightarrow> string \<Rightarrow> (string \<times> json) list" where
  "advanced_inputs a loader_id image_id =
     [(''model'', ref loader_id 0),
      (''ipadapter'', ref loader_id 1),
      (''image'', ref image_id 0),
      (''weight'', JFloat (arg_ipadapter_weight a)),
      (''weight_type'', JStr (arg_ipadapter_weight_type a)),
      (''combine_embeds'', JStr (arg_ipadapter_combine a)),
      (''start_at'', JFloat (arg_ipadapter_start a)),
      (''end_at'', JFloat (arg_ipadapter_end a)),
      (''embeds_scaling'', JStr (arg_ipadapter_embeds a))]"

text \<open>
  The IPAdapter branch on the graph after the image is staged: the loader (inputs
  replaced when found), an image loader that is always new, the advanced node (inputs
  replaced when found) and the sampler's model input.
\<close>

definition ipadapter_wire :: "patch_args \<Rightarrow> string \<Rightarrow> string \<Rightarrow> graph \<Rightarrow> error + graph" where
  "ipadapter_wire a lora_id dest_name data =
     (case existing_ids data of
        Inl e \<Rightarrow> Inl e
      | Inr ids \<Rightarrow>
     (let loader_class = (if arg_ipadapter_community a then ''IPAdapterUnifiedLoaderCommunity''
                          else ''IPAdapterUnifiedLoader'');
          loader_inputs =
            [(''model'', ref lora_id 0),
             (''preset'', JStr (if loader_class = ''IPAdapterUnifiedLoaderCommunity''
                                then arg_ipadapter_community_preset a
                                else arg_ipadapter_preset a))]
      in
     (case upsert_replace (find_node_id loader_class data) loader_class loader_inputs ids data of
        Inl e \<Rightarrow> Inl e
      | Inr (loader_id, ids1, data1) \<Rightarrow>
     (case next_id ids1 of
        (image_id, ids2) \<Rightarrow>
     (let data2 = dict_set image_id (new_node ''LoadImage'' [(''image'', JStr dest_name)]) data1
      in
     (case upsert_replace (find_node_id ''IPAdapterAdvanced'' data2) ''IPAdapterAdvanced''
             (advanced_inputs a loader_id image_id) ids2 data2 of
        Inl e \<Rightarrow> Inl e
      | Inr (advanced_id, ids3, data3) \<Rightarrow>
     (case truthy (find_node_id ''KSampler'' data3) of
        None \<Rightarrow> Inl (SystemExit ''KSampler node not found; cannot add IPAdapter.'')
      | Some sampler_id \<Rightarrow>
          update_node sampler_id [(''model'', ref advanced_id 0)] data3)))))))"

definition ipadapter_step ::
  "pathlib \<Rightarrow> filesystem \<Rightarrow> patch_args \<Rightarrow> graph \<Rightarrow> fs_op list
     \<Rightarrow> (error + graph) \<times> fs_op list" where
  "ipadapter_step pl fs a data tr =
     (if \<not> arg_add_ipadapter a then (Inr data, tr)
      else
        (case truthy (arg_ipadapter_image a) of
           None \<Rightarrow> (Inl (SystemExit ''--add-ipadapter requires --ipadapter-image''), tr)
         | Some ipadapter_image \<Rightarrow>
        (case truthy (find_node_id ''LoraLoader'' data) of
           None \<Rightarrow> (Inl (SystemExit ''LoRA loader node not found; cannot add IPAdapter.''), tr)
         | Some lora_id \<Rightarrow>
        (case stage_image pl fs (arg_workflow a) ipadapter_image
                ''IPAdapter image not found: '' tr of
           (Inl e, tr') \<Rightarrow> (Inl e, tr')
         | (Inr (source_image, dest_path), tr') \<Rightarrow>
             (ipadapter_wire a lora_id (name_of pl dest_path) data, tr')))))"

subsection \<open>main\<close>

definition run_modes :: "patch_args \<Rightarrow> string list" where
  "run_modes a =
     (let modes0 = (case arg_mode a of None \<Rightarrow> [] | Some ms \<Rightarrow> ms);
          modes1 = (if arg_mature a then
                      (let base_modes = (if modes0 \<noteq> [] then modes0 else [''general''])
                       in if ''mature'' \<notin> set base_modes then base_modes @ [''mature'']
                          else base_modes)
                    else modes0)
      in if modes1 = [] then [''general''] else modes1)"

text \<open>
  The prompt of a run: the pools of the selected modes, \<^verbatim>\<open>generate_prompt\<close> with the
  default count and no overrides, and the five flat lines; the positive text is the
  first four joined by newlines, the negative text the fifth.
\<close>

definition run_prompt ::
  "('g \<Rightarrow> nat \<times> 'g) \<Rightarrow> (int \<Rightarrow> 'g) \<Rightarrow> filesystem \<Rightarrow> patch_args \<Rightarrow> 'g
     \<Rightarrow> error + (string \<times> string)" where
  "run_prompt nxt sd fs a g =
     (case load_pools (pool_path fs) (pool_file fs) (run_modes a) of
        Inl e \<Rightarrow> Inl e
      | Inr p \<Rightarrow>
          (case generate_prompt nxt sd p
                  \<lparr>modes = run_modes a, seed = arg_seed a,
                   composition_overrides = Map.empty, action_overrides = Map.empty,
                   subject_overrides = Map.empty, environment_overrides = Map.empty,
                   negative_groups = arg_neg_groups a, style_preset = arg_style_preset a,
                   default_count = 1\<rparr> g of
             Inl e \<Rightarrow> Inl e
           | Inr (prompt, g') \<Rightarrow>
               (let lines = as_lines prompt True (arg_delimiter a)
                in Inr (format_join [CHR 0x0A] (take 4 lines), lines ! 4))))"

text \<open>
  The graph part of a run, from the parsed document to the graph that is written, with
  the trace of the two optional branches.
\<close>

definition patch_graph ::
  "pathlib \<Rightarrow> filesystem \<Rightarrow> patch_args \<Rightarrow> string \<Rightarrow> string \<Rightarrow> json
     \<Rightarrow> (error + graph) \<times> fs_op list" where
  "patch_graph pl fs a positive_text negative_text doc =
     (case inject_text a positive_text negative_text doc of
        Inl e \<Rightarrow> (Inl e, [])
      | Inr data \<Rightarrow>
     (case lora_step a data of
        Inl e \<Rightarrow> (Inl e, [])
      | Inr data1 \<Rightarrow>
     (case clip_step a data1 of
        Inl e \<Rightarrow> (Inl e, [])
      | Inr data2 \<Rightarrow>
     (case controlnet_step pl fs a data2 [] of
        (Inl e, tr) \<Rightarrow> (Inl e, tr)
      | (Inr data3, tr) \<Rightarrow> ipadapter_step pl fs a data3 tr))))"

datatype outcome =
    DryRun string string
  | Saved string graph

definition main ::
  "('g \<Rightarrow> nat \<times> 'g) \<Rightarrow> (int \<Rightarrow> 'g) \<Rightarrow> pathlib \<Rightarrow> filesystem \<Rightarrow> patch_args \<Rightarrow> 'g
     \<Rightarrow> (error + outcome) \<times> fs_op list" where
  "main nxt sd pl fs a g =
     (if \<not> path_exists fs [] (arg_workflow a)
      then (Inl (SystemExit (''Workflow not found: '' @ arg_workflow a)), [])
      else
        (case run_prompt nxt sd fs a g of
           Inl e \<Rightarrow> (Inl e, [])
         | Inr (positive_text, negative_text) \<Rightarrow>
             if arg_dry_run a then (Inr (DryRun positive_text negative_text), [])
             else
               (case read_json fs (arg_workflow a) of
                  Inl e \<Rightarrow> (Inl e, [])
                | Inr doc \<Rightarrow>
                    (case patch_graph pl fs a positive_text negative_text doc of
                       (Inl e, tr) \<Rightarrow> (Inl e, tr)
                     | (Inr data, tr) \<Rightarrow>
                         (let output_path = (case arg_output a of
                                               None \<Rightarrow> arg_workflow a | Some p \<Rightarrow> p)
                          in (Inr (Saved output_path data),
                              tr @ [WriteText output_path data]))))))"


subsection \<open>Values used in the examples\<close>

text \<open>
  A generator for the closed examples: the state is a counter, the raw number drawn is
  the counter itself, and seeding with \<open>s\<close> sets the counter to \<open>nat s\<close>.
\<close>

definition counter_nxt :: "nat \<Rightarrow> nat \<times> nat" where
  "counter_nxt g = (g, Suc g)"

definition counter_seed :: "int \<Rightarrow> nat" where
  "counter_seed s = nat s"

text \<open>
  A generator that replays a given sequence of raw numbers: the state is what is left
  of the sequence.
\<close>

definition stream_nxt :: "nat list \<Rightarrow> nat \<times> nat list" where
  "stream_nxt rs = (case rs of [] \<Rightarrow> (0, []) | r # rs' \<Rightarrow> (r, rs'))"

text \<open>
  A pool file in which the two non-default modes \<^verbatim>\<open>mature\<close> and \<^verbatim>\<open>spicy\<close> both
  contribute the token \<^verbatim>\<open>x\<close> to \<^verbatim>\<open>composition/quality\<close>, and a call that blends them.
\<close>

definition overlap_doc :: pool_doc where
  "overlap_doc =
     \<lparr>doc_sets =
        [(''general'', [(''composition'', [(''quality'', [''a''])]), (''action'', []),
                        (''subject'', []), (''environment'', [])]),
         (''mature'', [(''composition'', [(''quality'', [''x''])])]),
         (''spicy'', [(''composition'', [(''quality'', [''x''])])])],
      doc_flat = \<lparr>sections = [], negative_base = Some [], negative_optional = Some [],
                   style_presets = [], sources = []\<rparr>\<rparr>"

definition overlap_args :: prompt_args where
  "overlap_args =
     \<lparr>modes = [''general'', ''mature'', ''spicy''], seed = Some 1,
      composition_overrides = Map.empty, action_overrides = Map.empty,
      subject_overrides = Map.empty, environment_overrides = Map.empty,
      negative_groups = [], style_preset = None, default_count = 2\<rparr>"

text \<open>
  A merged pool with one subcategory of three tokens and a preset \<^verbatim>\<open>romantic\<close> whose
  extra negative token is already in the negative base list.
\<close>

definition preset_pools :: pools where
  "preset_pools =
     \<lparr>sections = [(''composition'', [(''quality'', [''a'', ''b'', ''c''])]), (''action'', []),
                  (''subject'', []), (''environment'', [])],
      negative_base = Some [''blurry''],
      negative_optional = Some [(''anatomy'', [''extra fingers''])],
      style_presets = [(''romantic'', [(''composition'', [''soft light'', ''a'', ''soft light'']),
                                      (''negative'', [''blurry''])])],
      sources = []\<rparr>"

definition preset_args :: prompt_args where
  "preset_args =
     \<lparr>modes = [''general''], seed = Some 1,
      composition_overrides = Map.empty, action_overrides = Map.empty,
      subject_overrides = Map.empty, environment_overrides = Map.empty,
      negative_groups = [''anatomy''], style_preset = Some ''romantic'', default_count = 3\<rparr>"

text \<open>
  A command line with the defaults of the parser and no optional feature, a workflow
  with a sampler, a LoRA loader and the two text encoders, and a disk that holds the
  workflow file, the pool file and one image.
\<close>

definition base_args :: patch_args where
  "base_args =
     \<lparr>arg_workflow = ''wf/flow.json'', arg_output = None, arg_seed = Some 1,
      arg_pos_node = ''6'', arg_neg_node = ''7'', arg_delimiter = '', '',
      arg_neg_groups = [], arg_mode = None, arg_mature = False, arg_style_preset = None,
      arg_add_ipadapter = False, arg_ipadapter_preset = ''PLUS (high strength)'',
      arg_ipadapter_image = None, arg_ipadapter_weight = 85 / 100,
      arg_ipadapter_weight_type = ''style and composition'',
      arg_ipadapter_combine = ''average'',
      arg_ipadapter_start = 0, arg_ipadapter_end = 7 / 10,
      arg_ipadapter_embeds = ''K+mean(V) w/ C penalty'', arg_ipadapter_community = False,
      arg_ipadapter_community_preset = ''Composition'',
      arg_lora_strength_model = None, arg_lora_strength_clip = None, arg_clip_layer = None,
      arg_add_controlnet = False, arg_controlnet = None, arg_control_image = None,
      arg_control_strength = 9 / 10, arg_control_start = 0, arg_control_end = 1,
      arg_dry_run = False\<rparr>"

definition base_graph :: graph where
  "base_graph =
     [(''3'', JObj [(''class_type'', JStr ''KSampler''),
                   (''inputs'', JObj [(''seed'', JInt 5),
                                      (''model'', JList [JStr ''4'', JInt 0]),
                                      (''positive'', JList [JStr ''6'', JInt 0]),
                                      (''negative'', JList [JStr ''7'', JInt 0])])]),
      (''4'', JObj [(''class_type'', JStr ''LoraLoader''),
                   (''inputs'', JObj [(''strength_model'', JFloat 1),
                                      (''lora_name'', JStr ''x.safetensors'')])]),
      (''6'', JObj [(''class_type'', JStr ''CLIPTextEncode''),
                   (''inputs'', JObj [(''text'', JStr []),
                                      (''clip'', JList [JStr ''4'', JInt 1])]),
                   (''_meta'', JObj [(''title'', JStr ''Positive'')])]),
      (''7'', JObj [(''class_type'', JStr ''CLIPTextEncode''),
                   (''inputs'', JObj [(''text'', JStr []),
                                      (''clip'', JList [JStr ''4'', JInt 1])])])]"

text \<open>
  Path functions for the examples, on relative paths with \<^verbatim>\<open>/\<close> between the components
  and no \<^verbatim>\<open>~\<close>: the parent of a path with one component is \<^verbatim>\<open>.\<close>, and joining
  \<^verbatim>\<open>.\<close> with a name gives the name.
\<close>

definition path_parent :: "string \<Rightarrow> string" where
  "path_parent p =
     (case rev (drop 1 (dropWhile (\<lambda>c. c \<noteq> CHR ''/'') (rev p))) of
        [] \<Rightarrow> ''.''
      | c # cs \<Rightarrow> c # cs)"

definition path_join :: "string \<Rightarrow> string \<Rightarrow> string" where
  "path_join a b = (if a = ''.'' then b else a @ ''/'' @ b)"

definition plain_paths :: pathlib where
  "plain_paths =
     \<lparr>expanduser = (\<lambda>p. p),
      name_of = (\<lambda>p. rev (takeWhile (\<lambda>c. c \<noteq> CHR ''/'') (rev p))),
      joinpath = path_join,
      input_dir = (\<lambda>w. path_join (path_parent (path_parent w)) ''input'')\<rparr>"

definition disk :: filesystem where
  "disk =
     \<lparr>path_exists = (\<lambda>tr p. p \<in> set [''wf/flow.json'', ''img/pose.png'']),
      same_file = (\<lambda>tr a b. a = b),
      read_json = (\<lambda>p. if p = ''wf/flow.json'' then Inr (JObj base_graph) else Inl ValueError),
      pool_path = ''recipes/case_prompt_pools.json'',
      pool_file = Some overlap_doc\<rparr>"

text \<open>
  The same workflow with an \<^verbatim>\<open>IPAdapterAdvanced\<close> node that has a \<^verbatim>\<open>clip_vision\<close>
  input, and a command line that asks for the IPAdapter insertion.
\<close>

definition adapter_graph :: graph where
  "adapter_graph =
     base_graph @
     [(''8'', JObj [(''class_type'', JStr ''IPAdapterAdvanced''),
                   (''inputs'', JObj [(''weight'', JFloat (1 / 2)),
                                      (''clip_vision'', JList [JStr ''5'', JInt 0])])])]"

definition adapter_args :: patch_args where
  "adapter_args = base_args\<lparr>arg_add_ipadapter := True, arg_ipadapter_image := Some ''img/pose.png''\<rparr>"

definition controlnet_args :: patch_args where
  "controlnet_args =
     base_args\<lparr>arg_add_controlnet := True, arg_controlnet := Some ''cn.pth'',
               arg_control_image := Some ''img/pose.png''\<rparr>"



text \<open>
  The disk of the first examples with a workflow file that has, beside the four nodes,
  a top-level entry whose key is not a number.
\<close>

definition titled_disk :: filesystem where
  "titled_disk =
     disk\<lparr>read_json := (\<lambda>p. Inr (JObj (base_graph @ [(''title'', JStr ''portrait'')])))\<rparr>"

subsection \<open>Predicates for the properties of the sampler\<close>

text \<open>
  \<open>unseen target additions\<close>: the tokens of \<open>additions\<close> that \<open>target\<close> does not have,
  each once, in the order of their first occurrence.
\<close>

definition unseen :: "string list \<Rightarrow> string list \<Rightarrow> string list" where
  "unseen target additions = rev (remdups (rev (filter (\<lambda>item. item \<notin> set target) additions)))"

subsection \<open>Predicates for the properties of the merge\<close>

text \<open>
  \<open>tokens combined s k\<close> is the merged candidate list of subcategory \<open>k\<close> in section
  \<open>s\<close>, when there is one. The other predicates state the invariants of the merge loops
  and are used in proofs only: \<open>extends R d d'\<close> says that every key of \<open>d\<close> is a key of
  \<open>d'\<close> with a value related by \<open>R\<close> (with \<open>prefix\<close> at the leaves: the old list is an
  initial segment of the new one), \<open>absorbed additions mode st\<close> that the state \<open>st\<close>
  already holds everything merging \<open>additions\<close> for \<open>mode\<close> would add, and
  \<open>all_distinct\<close> that no merged list repeats a token.
\<close>

definition tokens :: "(string \<times> subcats) list \<Rightarrow> string \<Rightarrow> string \<Rightarrow> string list option" where
  "tokens combined section_name key =
     (case map_of combined section_name of None \<Rightarrow> None | Some s \<Rightarrow> map_of s key)"

definition extends :: "('v \<Rightarrow> 'v \<Rightarrow> bool) \<Rightarrow> ('k \<times> 'v) list \<Rightarrow> ('k \<times> 'v) list \<Rightarrow> bool" where
  "extends R d d' = (\<forall>k v. map_of d k = Some v \<longrightarrow> (\<exists>v'. map_of d' k = Some v' \<and> R v v'))"

definition absorbed_keys ::
  "subcats \<Rightarrow> string \<Rightarrow> subcats \<Rightarrow> subcat_sources \<Rightarrow> bool" where
  "absorbed_keys additions mode_name d sm =
     (\<forall>(k, vs) \<in> set additions.
        (\<exists>xs. map_of d k = Some xs \<and> set vs \<subseteq> set xs) \<and>
        (\<exists>mm ml. map_of sm k = Some mm \<and> map_of mm mode_name = Some ml \<and> set vs \<subseteq> set ml))"

definition absorbed ::
  "(string \<times> subcats) list \<Rightarrow> string \<Rightarrow> merge_state \<Rightarrow> bool" where
  "absorbed additions mode_name st =
     (\<forall>(s, adds) \<in> set additions.
        \<exists>d sm. map_of (fst st) s = Some d \<and> map_of (snd st) s = Some sm \<and>
               absorbed_keys adds mode_name d sm)"

definition state_extends :: "merge_state \<Rightarrow> merge_state \<Rightarrow> bool" where
  "state_extends st st' =
     (extends (extends prefix) (fst st) (fst st') \<and>
      extends (extends (extends prefix)) (snd st) (snd st'))"

definition all_distinct :: "(string \<times> subcats) list \<Rightarrow> bool" where
  "all_distinct C = (\<forall>s k xs. tokens C s k = Some xs \<longrightarrow> distinct xs)"

definition lists_distinct :: "subcats \<Rightarrow> bool" where
  "lists_distinct d = (\<forall>k xs. map_of d k = Some xs \<longrightarrow> distinct xs)"

subsection \<open>Predicates for the properties of a patch run\<close>



text \<open>
  \<open>reaches_controlnet nxt sd fs a g d\<close>: the run is not a dry run and gets to the
  ControlNet branch with the graph \<open>d\<close>. The workflow file exists, the prompt is
  generated, the file parses, both encoder ids name \<^verbatim>\<open>CLIPTextEncode\<close> nodes, and the
  LoRA and CLIP overrides that were asked for found their nodes.
\<close>

definition reaches_controlnet ::
  "('g \<Rightarrow> nat \<times> 'g) \<Rightarrow> (int \<Rightarrow> 'g) \<Rightarrow> filesystem \<Rightarrow> patch_args \<Rightarrow> 'g \<Rightarrow> graph \<Rightarrow> bool" where
  "reaches_controlnet nxt sd fs a g d =
     (path_exists fs [] (arg_workflow a) \<and> \<not> arg_dry_run a \<and>
      (case run_prompt nxt sd fs a g of
         Inl e \<Rightarrow> False
       | Inr (positive_text, negative_text) \<Rightarrow>
      (case read_json fs (arg_workflow a) of
         Inl e \<Rightarrow> False
       | Inr doc \<Rightarrow>
      (case inject_text a positive_text negative_text doc of
         Inl e \<Rightarrow> False
       | Inr d0 \<Rightarrow>
      (case lora_step a d0 of
         Inl e \<Rightarrow> False
       | Inr d1 \<Rightarrow> clip_step a d1 = Inr d)))))"

text \<open>
  \<open>settled data node_id ct kvs\<close>: the graph has under \<open>node_id\<close> a node of class \<open>ct\<close>
  whose inputs mapping already holds every pair of \<open>kvs\<close>.
\<close>

definition settled :: "graph \<Rightarrow> string \<Rightarrow> string \<Rightarrow> (string \<times> json) list \<Rightarrow> bool" where
  "settled data node_id class_type kvs =
     (case map_of data node_id of
        Some (JObj flds) \<Rightarrow>
          map_of flds ''class_type'' = Some (JStr class_type) \<and>
          (case map_of flds ''inputs'' of
             Some (JObj inputs) \<Rightarrow> list_all (\<lambda>kv. map_of inputs (fst kv) = Some (snd kv)) kvs
           | _ \<Rightarrow> False)
      | _ \<Rightarrow> False)"

text \<open>
  The state a successful run leaves behind, stage by stage: the override stages have
  the node they look for, with the inputs they assign; the ControlNet branch has its
  loader \<open>cid\<close>, image loader \<open>iid\<close>, applier \<open>aid\<close> and the sampler \<open>sid\<close> as the first
  nodes of their classes, with the inputs it assigns.
\<close>

definition controlnet_settled ::
  "pathlib \<Rightarrow> patch_args \<Rightarrow> graph \<Rightarrow> string \<Rightarrow> string \<Rightarrow> string \<Rightarrow> string \<Rightarrow> bool" where
  "controlnet_settled pl a d cid iid aid sid =
     (case (truthy (arg_controlnet a), truthy (arg_control_image a)) of
        (Some controlnet, Some control_image) \<Rightarrow>
          find_node_id ''ControlNetLoader'' d = Some cid \<and>
          find_node_id ''LoadImage'' d = Some iid \<and>
          find_node_id ''ControlNetApplyAdvanced'' d = Some aid \<and>
          find_node_id ''KSampler'' d = Some sid \<and>
          settled d cid ''ControlNetLoader'' [(''control_net_name'', JStr controlnet)] \<and>
          settled d iid ''LoadImage''
            [(''image'', JStr (name_of pl (expanduser pl control_image)))] \<and>
          settled d aid ''ControlNetApplyAdvanced'' (apply_inputs a cid iid) \<and>
          settled d sid ''KSampler'' [(''positive'', ref aid 0), (''negative'', ref aid 1)]
      | _ \<Rightarrow> False)"

definition lora_settled :: "patch_args \<Rightarrow> graph \<Rightarrow> bool" where
  "lora_settled a d =
     (if arg_lora_strength_model a \<noteq> None \<or> arg_lora_strength_clip a \<noteq> None then
        (case truthy (find_node_id ''LoraLoader'' d) of
           None \<Rightarrow> False
         | Some k \<Rightarrow> settled d k ''LoraLoader'' (lora_inputs a))
      else True)"

definition clip_settled :: "patch_args \<Rightarrow> graph \<Rightarrow> bool" where
  "clip_settled a d =
     (case arg_clip_layer a of
        None \<Rightarrow> True
      | Some layer \<Rightarrow>
          (case truthy (find_node_id ''CLIPSetLastLayer'' d) of
             None \<Rightarrow> False
           | Some k \<Rightarrow> settled d k ''CLIPSetLastLayer'' [(''stop_at_clip_layer'', JInt layer)]))"

section \<open>Properties of the sampler\<close>

subsection \<open>Drawing without replacement\<close>

lemma randbelow_less: "0 < n \<Longrightarrow> fst (randbelow nxt n g) < n"
  by (simp add: randbelow_def split: prod.splits)

lemma mset_vacate:
  assumes "j < length pool"
  shows "mset (butlast (pool[j := last pool])) = mset pool - {#pool ! j#}"
proof -
  from assms have ne: "pool \<noteq> []" by auto
  let ?q = "pool[j := last pool]"
  have qne: "?q \<noteq> []" using ne by simp
  have lastq: "last ?q = last pool"
    using assms ne by (simp add: last_conv_nth nth_list_update)
  have "butlast ?q @ [last ?q] = ?q" using qne by simp
  then have "mset ?q = mset (butlast ?q @ [last ?q])" by simp
  then have a: "mset ?q = add_mset (last ?q) (mset (butlast ?q))" by simp
  have b: "mset ?q = add_mset (last pool) (mset pool - {#pool ! j#})"
    using assms by (simp add: mset_update)
  from a b lastq show ?thesis by simp
qed

lemma sample_loop_props:
  "k \<le> length pool \<Longrightarrow>
     length (fst (sample_loop nxt pool k g)) = k \<and>
     mset (fst (sample_loop nxt pool k g)) \<subseteq># mset pool"
proof (induction k arbitrary: pool g)
  case 0
  then show ?case by simp
next
  case (Suc k)
  then have ne: "pool \<noteq> []" by auto
  obtain j g' where rb: "randbelow nxt (length pool) g = (j, g')"
    by (cases "randbelow nxt (length pool) g")
  have jl: "j < length pool"
    using randbelow_less[of "length pool" nxt g] ne rb by simp
  let ?q = "butlast (pool[j := last pool])"
  have lq: "k \<le> length ?q" using Suc.prems by simp
  obtain rest g'' where sl: "sample_loop nxt ?q k g' = (rest, g'')"
    by (cases "sample_loop nxt ?q k g'")
  from Suc.IH[OF lq, of g'] sl have ih: "length rest = k" "mset rest \<subseteq># mset ?q"
    by simp_all
  have "mset rest \<subseteq># mset pool - {#pool ! j#}"
    using ih(2) mset_vacate[OF jl] by simp
  moreover have "pool ! j \<in># mset pool" using jl by simp
  ultimately have "add_mset (pool ! j) (mset rest) \<subseteq># mset pool"
    by (simp add: insert_subset_eq_iff)
  then show ?case using ne rb sl ih by simp
qed

lemma random_sample_ok:
  "k \<le> length pool \<Longrightarrow>
     \<exists>xs g'. random_sample nxt pool k g = Inr (xs, g') \<and> length xs = k \<and> mset xs \<subseteq># mset pool"
  using sample_loop_props[of k pool nxt g]
  by (cases "sample_loop nxt pool k g") (simp add: random_sample_def)

text \<open>
  The pool form can draw any \<open>k\<close> different positions in any order: the raw sequence
  names, at each step, the place that the wanted position has in the pool by then.
  So the values at \<open>k\<close> different positions, which is what either form of the library's
  function returns, are always a result of \<open>random_sample\<close>.
\<close>

lemma sample_loop_positions:
  assumes "length js = k" and "distinct js" and "\<forall>j \<in> set js. j < length pool"
  shows "\<exists>rs. fst (sample_loop stream_nxt pool k rs) = map (\<lambda>j. pool ! j) js"
  using assms
proof (induction k arbitrary: js pool)
  case 0
  then show ?case by simp
next
  case (Suc k)
  from Suc.prems(1) obtain j js' where js: "js = j # js'" and k: "length js' = k"
    by (cases js) auto
  let ?n = "length pool"
  let ?pool' = "butlast (pool[j := last pool])"
  let ?f = "\<lambda>p. if p = ?n - 1 then j else p"
  from Suc.prems js have j: "j < ?n" and jn: "j \<notin> set js'" and d: "distinct js'"
    and b: "\<forall>p \<in> set js'. p < ?n" by auto
  from j have ne: "pool \<noteq> []" by auto
  have len: "length ?pool' = ?n - 1" by simp
  have lt: "\<forall>p \<in> set js'. ?f p < ?n - 1"
  proof
    fix p assume p: "p \<in> set js'"
    with jn have "p \<noteq> j" by auto
    with b p j show "?f p < ?n - 1" by (auto split: if_splits)
  qed
  have inj: "inj_on ?f (set js')"
    using jn by (auto simp: inj_on_def split: if_splits)
  have val: "\<forall>p \<in> set js'. ?pool' ! ?f p = pool ! p"
  proof
    fix p assume p: "p \<in> set js'"
    with jn have pj: "p \<noteq> j" by auto
    from lt p have l: "?f p < ?n - 1" by blast
    have "?pool' ! ?f p = (pool[j := last pool]) ! ?f p"
      using l by (simp add: nth_butlast)
    also have "\<dots> = pool ! p"
      using pj j ne by (auto simp: last_conv_nth nth_list_update)
    finally show "?pool' ! ?f p = pool ! p" .
  qed
  have "length (map ?f js') = k" using k by simp
  moreover have "distinct (map ?f js')" using d inj by (simp add: distinct_map)
  moreover have "\<forall>q \<in> set (map ?f js'). q < length ?pool'"
    using lt len by auto
  ultimately obtain rs where
    rs: "fst (sample_loop stream_nxt ?pool' k rs) = map (\<lambda>q. ?pool' ! q) (map ?f js')"
    using Suc.IH[of "map ?f js'" ?pool'] by blast
  have m: "map (\<lambda>q. ?pool' ! q) (map ?f js') = map (\<lambda>p. pool ! p) js'"
    using val by (simp add: comp_def)
  have r: "randbelow stream_nxt ?n (j # rs) = (j, rs)"
    using j by (simp add: randbelow_def stream_nxt_def)
  have "fst (sample_loop stream_nxt pool (Suc k) (j # rs)) = map (\<lambda>p. pool ! p) js"
    using ne r rs m js by (simp add: split_beta)
  then show ?case by blast
qed

lemma random_sample_any_positions:
  assumes "distinct js" and "\<forall>j \<in> set js. j < length population"
  shows "\<exists>rs g'. random_sample stream_nxt population (length js) rs =
                   Inr (map (\<lambda>j. population ! j) js, g')"
proof -
  from sample_loop_positions[OF refl assms] obtain rs where
    "fst (sample_loop stream_nxt population (length js) rs) = map (\<lambda>j. population ! j) js"
    by blast
  moreover have "length js \<le> length population"
  proof -
    have "set js \<subseteq> {..<length population}" using assms(2) by auto
    then have "card (set js) \<le> card {..<length population}" by (intro card_mono) auto
    then show ?thesis using assms(1) by (simp add: distinct_card)
  qed
  ultimately show ?thesis
    by (intro exI[of _ rs] exI[of _ "snd (sample_loop stream_nxt population (length js) rs)"])
      (simp add: random_sample_def prod_eq_iff)
qed

lemma mset_subseteq_distinct:
  assumes "mset xs \<subseteq># mset ys" and "distinct ys"
  shows "distinct xs"
proof -
  have "count (mset xs) a = (if a \<in> set xs then 1 else 0)" for a
  proof (cases "a \<in> set xs")
    case True
    have le: "count (mset xs) a \<le> count (mset ys) a"
      using assms(1) by (simp add: mset_subset_eq_count)
    have "count (mset ys) a \<le> 1"
      using assms(2) by (simp add: distinct_count_atmost_1)
    with le have u: "count (mset xs) a \<le> 1" by linarith
    have "0 < count (mset xs) a" using True by simp
    with u have "count (mset xs) a = 1" by linarith
    then show ?thesis using True by simp
  next
    case False
    then have "count (mset xs) a = 0" by (simp add: count_eq_zero_iff)
    then show ?thesis using False by simp
  qed
  then show ?thesis unfolding distinct_count_atmost_1 by blast
qed

lemma mset_subseteq_set: "mset xs \<subseteq># mset ys \<Longrightarrow> set xs \<subseteq> set ys"
  by (metis set_mset_mono set_mset_mset)

text \<open>
  What \<^verbatim>\<open>_pick_items\<close> does achieve: when neither the candidate list nor the preferred
  list repeats a token, it never raises, and it draws exactly
  \<open>min cnt (length options)\<close> tokens of the candidate list, no token twice.
\<close>

lemma pick_items_exact:
  assumes "distinct options" and "distinct preferred" and "0 \<le> cnt"
  shows "\<exists>chosen g'. pick_items nxt options cnt preferred g = Inr (chosen, g') \<and>
           int (length chosen) = min cnt (int (length options)) \<and>
           distinct chosen \<and> set chosen \<subseteq> set options"
proof (cases "cnt \<le> 0")
  case True
  then show ?thesis using assms by (simp add: pick_items_def)
next
  case False
  define ap where "ap = filter (\<lambda>item. item \<in> set options) preferred"
  have dap: "distinct ap" and sap: "set ap \<subseteq> set options"
    using assms(2) by (auto simp: ap_def)
  have lap: "length ap \<le> length options"
    using dap sap assms(1) by (metis card_mono distinct_card List.finite_set)
  define take where "take = min cnt (int (length ap))"
  obtain chosen cnt' g1 where
    first: "(if ap \<noteq> [] then
                (case random_sample nxt ap (nat take) g of
                   Inl e \<Rightarrow> Inl e
                 | Inr (drawn, g') \<Rightarrow> Inr (drawn, cnt - take, g'))
              else Inr ([], cnt, g)) = Inr (chosen, cnt', g1)"
    and ch: "distinct chosen" "set chosen \<subseteq> set options"
            "int (length chosen) = cnt - cnt'" "0 \<le> cnt'" "int (length chosen) \<le> int (length ap)"
  proof (cases "ap = []")
    case True
    show ?thesis by (rule that[of "[]" cnt g]) (use True assms in auto)
  next
    case ne: False
    have "nat take \<le> length ap" using False by (simp add: take_def)
    from random_sample_ok[OF this, of nxt g] obtain xs g' where
      rs: "random_sample nxt ap (nat take) g = Inr (xs, g')" "length xs = nat take" "mset xs \<subseteq># mset ap"
      by blast
    have "distinct xs" using rs(3) dap by (rule mset_subseteq_distinct)
    moreover have "set xs \<subseteq> set options" using mset_subseteq_set[OF rs(3)] sap by blast
    moreover have "int (length xs) = cnt - (cnt - take)" using rs(2) False by (simp add: take_def)
    moreover have "0 \<le> cnt - take" by (simp add: take_def)
    moreover have "int (length xs) \<le> int (length ap)" using rs(2) False by (simp add: take_def)
    ultimately show ?thesis using that[of xs "cnt - take" g'] ne rs(1) by simp
  qed
  have pi: "pick_items nxt options cnt preferred g =
     (if cnt' \<le> 0 then Inr (chosen, g1)
            else
              let remaining_pool = filter (\<lambda>item. item \<notin> set chosen) options in
              if remaining_pool = [] then Inr (chosen, g1)
              else if cnt' \<ge> int (length remaining_pool) then Inr (chosen @ remaining_pool, g1)
              else
                (case random_sample nxt remaining_pool (nat cnt') g1 of
                   Inl e \<Rightarrow> Inl e
                 | Inr (drawn, g'') \<Rightarrow> Inr (chosen @ drawn, g'')))"
    using False first unfolding pick_items_def ap_def[symmetric] Let_def take_def[symmetric]
    by (simp add: Let_def)
  define rp where "rp = filter (\<lambda>item. item \<notin> set chosen) options"
  have drp: "distinct rp" "set rp \<inter> set chosen = {}" "set rp \<subseteq> set options"
    using assms(1) by (auto simp: rp_def)
  have lrp: "length rp + length chosen = length options"
  proof -
    have "set options = set rp \<union> set chosen" using ch(2) by (auto simp: rp_def)
    then have "card (set options) = card (set rp) + card (set chosen)"
      using drp(2) by (simp add: card_Un_disjoint)
    then show ?thesis using assms(1) drp(1) ch(1) by (simp add: distinct_card)
  qed
  show ?thesis
  proof (cases "cnt' \<le> 0")
    case True
    then have "cnt' = 0" using ch(4) by simp
    then show ?thesis using pi ch lrp lap by auto
  next
    case pos: False
    then have full: "length chosen = length ap"
      using first ch(3) by (auto simp: take_def split: if_splits sum.splits prod.splits dest!: random_sample_ok[THEN exE] )
    show ?thesis
    proof (cases "rp = []")
      case True
      then show ?thesis using pi pos ch lrp unfolding rp_def[symmetric] by (auto simp: Let_def)
    next
      case rne: False
      show ?thesis
      proof (cases "cnt' \<ge> int (length rp)")
        case True
        then show ?thesis using pi pos rne ch lrp drp unfolding rp_def[symmetric]
          by (auto simp: Let_def)
      next
        case less: False
        then have "nat cnt' \<le> length rp" by simp
        from random_sample_ok[OF this, of nxt g1] obtain xs g' where
          rs: "random_sample nxt rp (nat cnt') g1 = Inr (xs, g')" "length xs = nat cnt'" "mset xs \<subseteq># mset rp"
          by blast
        have "distinct xs" using rs(3) drp(1) by (rule mset_subseteq_distinct)
        moreover have sx: "set xs \<subseteq> set rp" using mset_subseteq_set[OF rs(3)] .
        ultimately have "distinct (chosen @ xs)" "set (chosen @ xs) \<subseteq> set options"
          using ch drp by auto
        moreover have "int (length (chosen @ xs)) = min cnt (int (length options))"
          using rs(2) ch(3,4) less lrp by auto
        ultimately show ?thesis using pi pos rne less rs(1) unfolding rp_def[symmetric]
          by (simp add: Let_def)
      qed
    qed
  qed
qed


text \<open>
  With a token that two preferred modes both contributed, the preferred list holds it
  twice, and any generator draws the two positions: the token is chosen twice.
\<close>

lemma pick_items_duplicate_any_generator:
  "\<exists>g'. pick_items nxt [''a'', ''x''] 2 [''x'', ''x''] g = Inr ([''x'', ''x''], g')"
proof -
  have "(2::nat) \<le> length [''x'', ''x'']" by simp
  from random_sample_ok[OF this, of nxt g] obtain xs g' where
    rs: "random_sample nxt [''x'', ''x''] 2 g = Inr (xs, g')" "length xs = 2"
        "mset xs \<subseteq># mset [''x'', ''x'']"
    by blast
  have sub: "set xs \<subseteq> {''x''}" using mset_subseteq_set[OF rs(3)] by simp
  obtain u v where uv: "xs = [u, v]"
    using rs(2) by (cases xs; cases "tl xs"; cases "tl (tl xs)") auto
  with sub have "xs = [''x'', ''x'']" by simp
  with rs(1) show ?thesis by (simp add: pick_items_def)
qed

text \<open>
  When the candidate list is the repeated token alone, the draw is even longer than the
  candidate list.
\<close>

lemma pick_items_overfill:
  "map_sum id fst (pick_items counter_nxt [''x''] 2 [''x'', ''x''] 0) = Inr [''x'', ''x'']"
  by code_simp

text \<open>
  Claim C1 (the draw for a subcategory has \<open>min requested pool_size\<close> tokens and no
  token twice, also when the preferred modes overlap), evaluated on the code at the
  pool file \<open>overlap_doc\<close>: \<^verbatim>\<open>mature\<close> and \<^verbatim>\<open>spicy\<close> both contribute \<^verbatim>\<open>x\<close> to
  \<^verbatim>\<open>composition/quality\<close>, whose merged candidates are \<^verbatim>\<open>a\<close> and \<^verbatim>\<open>x\<close>. With a requested
  count of 2 the run loads the pools and draws \<^verbatim>\<open>x\<close> twice for \<^verbatim>\<open>quality\<close>, where the
  claim has the two distinct tokens.
\<close>

theorem overlapping_preferred_draws_duplicate:
  "(case load_pools ''pools.json'' (Some overlap_doc) (modes overlap_args) of
      Inl e \<Rightarrow> Inl e
    | Inr p \<Rightarrow> map_sum id (composition \<circ> fst)
                (generate_prompt counter_nxt counter_seed p overlap_args 0))
   = Inr [''x'', ''x'']"
  by code_simp

subsection \<open>Reproducible runs\<close>

text \<open>
  Claim C2: with a seed, the lines that \<^verbatim>\<open>generate_prompt\<close> and \<^verbatim>\<open>as_lines\<close> produce
  do not depend on the state the process-wide generator was in before the call: two
  calls with the same seed, pools, overrides, groups, preset, flat flag and delimiter
  return the same lines (or raise the same exception), whatever the generator states
  \<open>g1\<close> and \<open>g2\<close> they start from.
\<close>

theorem seeded_runs_agree:
  assumes "seed a = Some s"
  shows "map_sum id (\<lambda>r. as_lines (fst r) flat delimiter) (generate_prompt nxt sd p a g1)
       = map_sum id (\<lambda>r. as_lines (fst r) flat delimiter) (generate_prompt nxt sd p a g2)"
  using assms by (simp add: generate_prompt_def)

theorem seeded_runs_agree_witness:
  "seed preset_args = Some 1 \<and>
   map_sum id (\<lambda>r. as_lines (fst r) True '', '')
     (generate_prompt counter_nxt counter_seed preset_pools preset_args 0)
     = map_sum id (\<lambda>r. as_lines (fst r) True '', '')
         (generate_prompt counter_nxt counter_seed preset_pools preset_args 5)"
  using seeded_runs_agree[of preset_args 1 True "'', ''" counter_nxt counter_seed preset_pools 0 5]
  by (simp add: preset_args_def)

text \<open>Without a seed the lines follow the generator state the call starts from.\<close>

lemma unseeded_runs_can_differ:
  "map_sum id (\<lambda>r. as_lines (fst r) True '', '')
     (generate_prompt counter_nxt counter_seed preset_pools (preset_args\<lparr>seed := None, default_count := 1\<rparr>) 0)
   \<noteq> map_sum id (\<lambda>r. as_lines (fst r) True '', '')
     (generate_prompt counter_nxt counter_seed preset_pools (preset_args\<lparr>seed := None, default_count := 1\<rparr>) 1)"
  by code_simp

subsection \<open>The preset merge\<close>

lemma remdups_snoc: "remdups (ys @ [x]) = remdups (removeAll x ys) @ [x]"
  by (induction ys) auto

lemma unseen_Cons_new:
  "x \<notin> set t \<Longrightarrow> unseen t (x # adds) = x # unseen (t @ [x]) adds"
proof -
  assume "x \<notin> set t"
  have f: "filter (\<lambda>item. item \<notin> set (t @ [x])) adds = removeAll x (filter (\<lambda>item. item \<notin> set t) adds)"
    by (induction adds) auto
  show ?thesis using \<open>x \<notin> set t\<close>
    by (simp add: unseen_def remdups_snoc f del: set_append) (simp add: rev_filter removeAll_filter_not_eq)
qed

lemma unseen_Cons_old: "x \<in> set t \<Longrightarrow> unseen t (x # adds) = unseen t adds"
  by (simp add: unseen_def)

lemma extend_unique_unseen: "extend_unique target additions = target @ unseen target additions"
proof (induction additions arbitrary: target)
  case Nil
  then show ?case by (simp add: unseen_def)
next
  case (Cons x adds)
  then show ?case by (cases "x \<in> set target") (simp_all add: unseen_Cons_new unseen_Cons_old)
qed

lemma set_unseen: "set (unseen t adds) = set adds - set t"
  by (auto simp: unseen_def)

lemma distinct_unseen: "distinct (unseen t adds)"
  by (simp add: unseen_def)

lemma subseq_unseen: "subseq (unseen t adds) adds"
proof (induction adds arbitrary: t)
  case Nil
  then show ?case by (simp add: unseen_def)
next
  case (Cons x adds)
  show ?case
  proof (cases "x \<in> set t")
    case True
    then show ?thesis using Cons[of t] by (simp add: unseen_Cons_old list_emb_Cons)
  next
    case False
    then show ?thesis using Cons[of "t @ [x]"] by (simp add: unseen_Cons_new)
  qed
qed

text \<open>
  Claim C8 as stated fails on the negative list: with the negative base \<^verbatim>\<open>blurry\<close> and
  a preset whose extra negative token is \<^verbatim>\<open>blurry\<close>, the run returns \<^verbatim>\<open>blurry\<close> twice,
  where the rule of the sections (\<open>extend_unique\<close>) would keep one.
\<close>

theorem preset_negatives_not_deduplicated:
  "map_sum id (negatives \<circ> fst) (generate_prompt counter_nxt counter_seed preset_pools (preset_args\<lparr>negative_groups := []\<rparr>) 0)
     = Inr [''blurry'', ''blurry'']
   \<and> extend_unique [''blurry''] [''blurry''] = [''blurry'']"
  by code_simp

text \<open>
  Claim C8, amended: for a preset that the pools have, each section of the result is
  the sampled section followed by the preset's extra tokens for it that the sampled
  section does not have, each once, in the order of their first occurrence; the
  negative list is the base list and the requested groups followed by all the preset's
  extra negative tokens, as they are.
\<close>

theorem preset_merge:
  assumes "style_preset a = Some name" and "name \<noteq> []"
    and "map_of (style_presets p) name = Some pd"
    and "sample_all nxt p a (case seed a of None \<Rightarrow> g | Some s \<Rightarrow> sd s) = Inr ((c, ac, su, en), g')"
    and "negative_base p = Some nb" and "negative_optional p = Some opt"
    and "extend_groups opt (negative_groups a) nb = Inr negs"
  shows "generate_prompt nxt sd p a g =
           Inr (\<lparr>composition = c @ unseen c (get_default pd ''composition'' []),
                 action = ac @ unseen ac (get_default pd ''action'' []),
                 subject = su @ unseen su (get_default pd ''subject'' []),
                 environment = en @ unseen en (get_default pd ''environment'' []),
                 negatives = negs @ get_default pd ''negative'' []\<rparr>, g')"
  using assms
  by (simp add: generate_prompt_def preset_lookup_def build_negatives_def apply_preset_def
      extend_unique_unseen get_default_def)

theorem preset_merge_witness:
  "generate_prompt counter_nxt counter_seed preset_pools preset_args 0 =
     Inr (\<lparr>composition = [''a'', ''b'', ''c'', ''soft light''], action = [], subject = [],
           environment = [],
           negatives = [''blurry'', ''extra fingers'', ''blurry'']\<rparr>, 1)"
proof -
  have h1: "style_preset preset_args = Some ''romantic''" by (simp add: preset_args_def)
  have h2: "''romantic'' \<noteq> []" by simp
  have h3: "map_of (style_presets preset_pools) ''romantic'' =
              Some [(''composition'', [''soft light'', ''a'', ''soft light'']),
                    (''negative'', [''blurry''])]"
    by (simp add: preset_pools_def)
  have h4: "sample_all counter_nxt preset_pools preset_args
              (case seed preset_args of None \<Rightarrow> 0 | Some s \<Rightarrow> counter_seed s)
            = Inr (([''a'', ''b'', ''c''], [], [], []), 1)"
    by code_simp
  have h5: "negative_base preset_pools = Some [''blurry'']" by (simp add: preset_pools_def)
  have h6: "negative_optional preset_pools = Some [(''anatomy'', [''extra fingers''])]"
    by (simp add: preset_pools_def)
  have h7: "extend_groups [(''anatomy'', [''extra fingers''])] (negative_groups preset_args)
              [''blurry''] = Inr [''blurry'', ''extra fingers'']"
    by (simp add: preset_args_def)
  from preset_merge[OF h1 h2 h3 h4 h5 h6 h7]
  show ?thesis by (simp add: unseen_def get_default_def)
qed

section \<open>Properties of the merge\<close>

lemma map_of_dict_set [simp]:
  "map_of (dict_set k v d) k' = (if k' = k then Some v else map_of d k')"
  by (induction d) auto

lemma map_of_setdefault:
  "map_of (setdefault k v d) k' =
     (if k' = k \<and> map_of d k = None then Some v else map_of d k')"
  by (auto simp: setdefault_def map_add_def split: option.splits)

lemma dict_set_same: "map_of d k = Some v \<Longrightarrow> dict_set k v d = d"
  by (induction d) (auto split: if_splits)

lemma setdefault_present: "map_of d k = Some v \<Longrightarrow> setdefault k v' d = d"
  by (simp add: setdefault_def)

lemma extendsD:
  "extends R d d' \<Longrightarrow> map_of d k = Some v \<Longrightarrow> \<exists>v'. map_of d' k = Some v' \<and> R v v'"
  by (simp add: extends_def)

lemma extends_refl: "(\<And>v. R v v) \<Longrightarrow> extends R d d"
  by (simp add: extends_def)

lemma extends_trans:
  "(\<And>a b c. R a b \<Longrightarrow> R b c \<Longrightarrow> R a c) \<Longrightarrow> extends R d d' \<Longrightarrow> extends R d' d'' \<Longrightarrow> extends R d d''"
  unfolding extends_def by metis

lemma extends_dict_set:
  assumes "\<And>v. R v v" and "\<And>v. map_of d k = Some v \<Longrightarrow> R v v'"
  shows "extends R d (dict_set k v' d)"
  using assms by (auto simp: extends_def)

lemma extends_setdefault: "(\<And>v. R v v) \<Longrightarrow> extends R d (setdefault k v d)"
  by (auto simp: extends_def map_of_setdefault)

lemma e0_refl: "prefix (v::string list) v" by simp

lemma e1_refl: "extends prefix (d::(string \<times> string list) list) d" by (simp add: extends_refl)

lemma e2_refl: "extends (extends prefix) (d::(string \<times> (string \<times> string list) list) list) d"
  by (simp add: extends_refl e1_refl)

lemma e3_refl: "extends (extends (extends prefix)) (d::(string \<times> (string \<times> (string \<times> string list) list) list) list) d"
  by (simp add: extends_refl e2_refl)

lemma e1_trans: "extends prefix (a::(string \<times> string list) list) b \<Longrightarrow> extends prefix b c \<Longrightarrow> extends prefix a c"
  by (rule extends_trans[where R = prefix]) auto

lemma e2_trans: "extends (extends prefix) (a::(string \<times> (string \<times> string list) list) list) b \<Longrightarrow> extends (extends prefix) b c \<Longrightarrow> extends (extends prefix) a c"
  by (rule extends_trans[where R = "extends prefix"]) (auto intro: e1_trans)

lemma e3_trans: "extends (extends (extends prefix)) (a::(string \<times> (string \<times> (string \<times> string list) list) list) list) b \<Longrightarrow> extends (extends (extends prefix)) b c \<Longrightarrow> extends (extends (extends prefix)) a c"
  by (rule extends_trans[where R = "extends (extends prefix)"]) (auto intro: e2_trans)

lemma state_extends_refl: "state_extends st st"
  by (simp add: state_extends_def e2_refl e3_refl)

lemma state_extends_trans: "state_extends a b \<Longrightarrow> state_extends b c \<Longrightarrow> state_extends a c"
  by (auto simp: state_extends_def intro: e2_trans e3_trans)

lemma merge_values_eq: "merge_values vs (d, m) = (extend_unique d vs, extend_unique m vs)"
  by (induction vs arbitrary: d m) auto

lemma extend_unique_absorbed: "set vs \<subseteq> set d \<Longrightarrow> extend_unique d vs = d"
  by (induction vs arbitrary: d) auto

lemma prefix_extend_unique: "prefix d (extend_unique d vs)"
  by (simp add: extend_unique_unseen)

lemma set_extend_unique: "set (extend_unique d vs) = set d \<union> set vs"
  by (auto simp: extend_unique_unseen set_unseen)

lemma distinct_extend_unique: "distinct d \<Longrightarrow> distinct (extend_unique d vs)"
  by (auto simp: extend_unique_unseen set_unseen distinct_unseen)

lemma merge_key_result:
  "merge_key m key vs (d, sm) =
     (dict_set key (extend_unique (get_default (setdefault key [] d) key []) vs) (setdefault key [] d),
      dict_set key
        (dict_set m
           (extend_unique (get_default (setdefault m [] (get_default (setdefault key [] sm) key [])) m []) vs)
           (setdefault m [] (get_default (setdefault key [] sm) key [])))
        (setdefault key [] sm))"
  by (simp add: merge_key_def Let_def merge_values_eq)

lemma merge_key_extends:
  assumes "merge_key m key vs (d, sm) = (d', sm')"
  shows "extends prefix d d'" and "extends (extends prefix) sm sm'"
proof -
  let ?d1 = "setdefault key [] d"
  let ?sm1 = "setdefault key [] sm"
  let ?mm = "setdefault m [] (get_default ?sm1 key [])"
  from assms have d': "d' = dict_set key (extend_unique (get_default ?d1 key []) vs) ?d1"
    and sm': "sm' = dict_set key (dict_set m (extend_unique (get_default ?mm m []) vs) ?mm) ?sm1"
    by (simp_all add: merge_key_result)
  have "extends prefix d ?d1" by (rule extends_setdefault) simp
  moreover have "extends prefix ?d1 d'" unfolding d'
    by (rule extends_dict_set) (simp_all add: get_default_def prefix_extend_unique)
  ultimately show "extends prefix d d'" by (rule e1_trans)
  have "extends (extends prefix) sm ?sm1" by (rule extends_setdefault) (rule e1_refl)
  moreover have "extends (extends prefix) ?sm1 sm'" unfolding sm'
  proof (rule extends_dict_set)
    show "extends prefix v v" for v :: "(string \<times> string list) list" by (rule e1_refl)
  next
    fix v assume v: "map_of ?sm1 key = Some v"
    then have g: "get_default ?sm1 key [] = v" by (simp add: get_default_def)
    have "extends prefix v (setdefault m [] v)" by (rule extends_setdefault) simp
    moreover have "extends prefix (setdefault m [] v)
        (dict_set m (extend_unique (get_default (setdefault m [] v) m []) vs) (setdefault m [] v))"
      by (rule extends_dict_set) (simp_all add: get_default_def prefix_extend_unique)
    ultimately show "extends prefix v (dict_set m (extend_unique (get_default ?mm m []) vs) ?mm)"
      unfolding g by (rule e1_trans)
  qed
  ultimately show "extends (extends prefix) sm sm'" by (rule e2_trans)
qed

lemma merge_key_absorbs:
  assumes "merge_key m key vs (d, sm) = (d', sm')"
  shows "absorbed_keys [(key, vs)] m d' sm'"
  using assms
  by (auto simp: merge_key_result absorbed_keys_def set_extend_unique)

lemma merge_key_absorbed:
  assumes "absorbed_keys [(key, vs)] m d sm"
  shows "merge_key m key vs (d, sm) = (d, sm)"
proof -
  from assms obtain xs mm ml where
    h: "map_of d key = Some xs" "set vs \<subseteq> set xs"
       "map_of sm key = Some mm" "map_of mm m = Some ml" "set vs \<subseteq> set ml"
    by (auto simp: absorbed_keys_def)
  show ?thesis using h
    by (simp add: merge_key_result setdefault_present get_default_def extend_unique_absorbed
        dict_set_same)
qed

lemma absorbed_keys_mono:
  assumes "absorbed_keys adds m d sm" and "extends prefix d d'" and "extends (extends prefix) sm sm'"
  shows "absorbed_keys adds m d' sm'"
  unfolding absorbed_keys_def
proof (clarify, intro conjI)
  fix k vs assume kv: "(k, vs) \<in> set adds"
  with assms(1) obtain xs mm ml where
    h: "map_of d k = Some xs" "set vs \<subseteq> set xs"
       "map_of sm k = Some mm" "map_of mm m = Some ml" "set vs \<subseteq> set ml"
    by (fastforce simp: absorbed_keys_def)
  from extendsD[OF assms(2) h(1)] obtain xs' where x: "map_of d' k = Some xs'" "prefix xs xs'"
    by blast
  then show "\<exists>xs. map_of d' k = Some xs \<and> set vs \<subseteq> set xs"
    using h(2) set_mono_prefix by blast
  from extendsD[OF assms(3) h(3)] obtain mm' where
    m1: "map_of sm' k = Some mm'" "extends prefix mm mm'"
    by blast
  from extendsD[OF m1(2) h(4)] obtain ml' where m2: "map_of mm' m = Some ml'" "prefix ml ml'"
    by blast
  show "\<exists>mm ml. map_of sm' k = Some mm \<and> map_of mm m = Some ml \<and> set vs \<subseteq> set ml"
    using m1(1) m2 h(5) set_mono_prefix by blast
qed

lemma absorbed_keys_ConsI:
  "absorbed_keys [(k, vs)] m d sm \<Longrightarrow> absorbed_keys adds m d sm \<Longrightarrow>
     absorbed_keys ((k, vs) # adds) m d sm"
  by (auto simp: absorbed_keys_def)

lemma absorbed_keys_ConsD:
  assumes "absorbed_keys ((k, vs) # adds) m d sm"
  shows "absorbed_keys [(k, vs)] m d sm" and "absorbed_keys adds m d sm"
  using assms by (auto simp: absorbed_keys_def)

lemma merge_keys_extends:
  "merge_keys m adds (d, sm) = (d', sm') \<Longrightarrow>
     extends prefix d d' \<and> extends (extends prefix) sm sm'"
proof (induction adds arbitrary: d sm)
  case Nil
  then show ?case by (simp add: e1_refl e2_refl)
next
  case (Cons a adds)
  obtain key vs where a: "a = (key, vs)" by (cases a)
  obtain d1 sm1 where s1: "merge_key m key vs (d, sm) = (d1, sm1)"
    by (cases "merge_key m key vs (d, sm)")
  from Cons.prems a s1 have "merge_keys m adds (d1, sm1) = (d', sm')" by simp
  from Cons.IH[OF this] merge_key_extends[OF s1] show ?case
    by (blast intro: e1_trans e2_trans)
qed

lemma merge_keys_absorbs:
  "merge_keys m adds (d, sm) = (d', sm') \<Longrightarrow> absorbed_keys adds m d' sm'"
proof (induction adds arbitrary: d sm)
  case Nil
  then show ?case by (simp add: absorbed_keys_def)
next
  case (Cons a adds)
  obtain key vs where a: "a = (key, vs)" by (cases a)
  obtain d1 sm1 where s1: "merge_key m key vs (d, sm) = (d1, sm1)"
    by (cases "merge_key m key vs (d, sm)")
  from Cons.prems a s1 have rest: "merge_keys m adds (d1, sm1) = (d', sm')" by simp
  have "absorbed_keys [(key, vs)] m d' sm'"
    using absorbed_keys_mono[OF merge_key_absorbs[OF s1]] merge_keys_extends[OF rest] by blast
  with Cons.IH[OF rest] show ?case unfolding a by (rule absorbed_keys_ConsI[rotated])
qed

lemma merge_keys_absorbed:
  "absorbed_keys adds m d sm \<Longrightarrow> merge_keys m adds (d, sm) = (d, sm)"
proof (induction adds)
  case Nil
  then show ?case by simp
next
  case (Cons a adds)
  obtain key vs where a: "a = (key, vs)" by (cases a)
  from Cons.prems have "absorbed_keys [(key, vs)] m d sm" "absorbed_keys adds m d sm"
    unfolding a by (rule absorbed_keys_ConsD)+
  then show ?case using Cons.IH by (simp add: a merge_key_absorbed)
qed

lemma merge_section_result:
  "merge_section s adds m (C, S) =
     (dict_set s (fst (merge_keys m adds (get_default (setdefault s [] C) s [],
                                         get_default (setdefault s [] S) s []))) (setdefault s [] C),
      dict_set s (snd (merge_keys m adds (get_default (setdefault s [] C) s [],
                                         get_default (setdefault s [] S) s []))) (setdefault s [] S))"
  by (simp add: merge_section_def Let_def split: prod.splits)

lemma merge_section_extends: "state_extends st (merge_section s adds m st)"
proof -
  obtain C S where st: "st = (C, S)" by (cases st)
  let ?C1 = "setdefault s [] C" and ?S1 = "setdefault s [] S"
  obtain ds ss where mk: "merge_keys m adds (get_default ?C1 s [], get_default ?S1 s []) = (ds, ss)"
    by (cases "merge_keys m adds (get_default ?C1 s [], get_default ?S1 s [])")
  note ex = merge_keys_extends[OF mk]
  have "extends (extends prefix) C ?C1" by (rule extends_setdefault) (rule e1_refl)
  moreover have "extends (extends prefix) ?C1 (dict_set s ds ?C1)"
  proof (rule extends_dict_set)
    show "extends prefix v v" for v :: subcats by (rule e1_refl)
  next
    fix v assume "map_of ?C1 s = Some v"
    then have "get_default ?C1 s [] = v" by (simp add: get_default_def)
    with ex show "extends prefix v ds" by simp
  qed
  ultimately have c: "extends (extends prefix) C (dict_set s ds ?C1)" by (rule e2_trans)
  have "extends (extends (extends prefix)) S ?S1" by (rule extends_setdefault) (rule e2_refl)
  moreover have "extends (extends (extends prefix)) ?S1 (dict_set s ss ?S1)"
  proof (rule extends_dict_set)
    show "extends (extends prefix) v v" for v :: subcat_sources by (rule e2_refl)
  next
    fix v assume "map_of ?S1 s = Some v"
    then have "get_default ?S1 s [] = v" by (simp add: get_default_def)
    with ex show "extends (extends prefix) v ss" by simp
  qed
  ultimately have "extends (extends (extends prefix)) S (dict_set s ss ?S1)" by (rule e3_trans)
  with c show ?thesis by (simp add: st merge_section_result mk state_extends_def)
qed

lemma merge_section_absorbs: "absorbed [(s, adds)] m (merge_section s adds m st)"
proof -
  obtain C S where st: "st = (C, S)" by (cases st)
  let ?C1 = "setdefault s [] C" and ?S1 = "setdefault s [] S"
  obtain ds ss where mk: "merge_keys m adds (get_default ?C1 s [], get_default ?S1 s []) = (ds, ss)"
    by (cases "merge_keys m adds (get_default ?C1 s [], get_default ?S1 s [])")
  from merge_keys_absorbs[OF mk] show ?thesis
    by (simp add: st merge_section_result mk absorbed_def)
qed

lemma merge_section_absorbed:
  assumes "absorbed [(s, adds)] m st"
  shows "merge_section s adds m st = st"
proof -
  obtain C S where st: "st = (C, S)" by (cases st)
  from assms obtain d sm where
    h: "map_of C s = Some d" "map_of S s = Some sm" "absorbed_keys adds m d sm"
    by (auto simp: absorbed_def st)
  show ?thesis using h
    by (simp add: st merge_section_result setdefault_present get_default_def
        merge_keys_absorbed dict_set_same)
qed

lemma absorbed_mono:
  assumes "absorbed additions m st" and "state_extends st st'"
  shows "absorbed additions m st'"
  unfolding absorbed_def
proof clarify
  fix s adds assume "(s, adds) \<in> set additions"
  with assms(1) obtain d sm where
    h: "map_of (fst st) s = Some d" "map_of (snd st) s = Some sm" "absorbed_keys adds m d sm"
    by (fastforce simp: absorbed_def)
  from assms(2) have e: "extends (extends prefix) (fst st) (fst st')"
    "extends (extends (extends prefix)) (snd st) (snd st')"
    by (simp_all add: state_extends_def)
  from extendsD[OF e(1) h(1)] obtain d' where d': "map_of (fst st') s = Some d'" "extends prefix d d'"
    by blast
  from extendsD[OF e(2) h(2)] obtain sm' where
    sm': "map_of (snd st') s = Some sm'" "extends (extends prefix) sm sm'"
    by blast
  from absorbed_keys_mono[OF h(3) d'(2) sm'(2)] d'(1) sm'(1)
  show "\<exists>d sm. map_of (fst st') s = Some d \<and> map_of (snd st') s = Some sm \<and>
               absorbed_keys adds m d sm"
    by blast
qed

lemma absorbed_ConsI:
  "absorbed [(s, adds)] m st \<Longrightarrow> absorbed additions m st \<Longrightarrow> absorbed ((s, adds) # additions) m st"
  by (auto simp: absorbed_def)

lemma absorbed_ConsD:
  assumes "absorbed ((s, adds) # additions) m st"
  shows "absorbed [(s, adds)] m st" and "absorbed additions m st"
  using assms by (auto simp: absorbed_def)

lemma merge_mode_extends: "state_extends st (merge_mode additions m st)"
proof (induction additions arbitrary: st)
  case Nil
  show ?case by (simp add: state_extends_refl)
next
  case (Cons a additions)
  obtain s adds where a: "a = (s, adds)" by (cases a)
  show ?case unfolding a merge_mode.simps
    by (rule state_extends_trans[OF merge_section_extends Cons.IH])
qed

lemma merge_mode_absorbs: "absorbed additions m (merge_mode additions m st)"
proof (induction additions arbitrary: st)
  case Nil
  show ?case by (simp add: absorbed_def)
next
  case (Cons a additions)
  obtain s adds where a: "a = (s, adds)" by (cases a)
  have "absorbed [(s, adds)] m (merge_mode additions m (merge_section s adds m st))"
    by (rule absorbed_mono[OF merge_section_absorbs merge_mode_extends])
  then show ?case unfolding a merge_mode.simps
    by (rule absorbed_ConsI) (rule Cons.IH)
qed

lemma merge_mode_absorbed: "absorbed additions m st \<Longrightarrow> merge_mode additions m st = st"
proof (induction additions)
  case Nil
  show ?case by simp
next
  case (Cons a additions)
  obtain s adds where a: "a = (s, adds)" by (cases a)
  from Cons.prems have "absorbed [(s, adds)] m st" "absorbed additions m st"
    unfolding a by (rule absorbed_ConsD)+
  then show ?case using Cons.IH by (simp add: a merge_section_absorbed)
qed

lemma merge_modes_append:
  "merge_modes pools_path sets (xs @ ys) st =
     (case merge_modes pools_path sets xs st of Inl e \<Rightarrow> Inl e | Inr st' \<Rightarrow> merge_modes pools_path sets ys st')"
  by (induction xs arbitrary: st) (auto split: option.splits)

lemma merge_modes_extends: "merge_modes pools_path sets ms st = Inr st' \<Longrightarrow> state_extends st st'"
proof (induction ms arbitrary: st)
  case Nil
  then show ?case by (simp add: state_extends_refl)
next
  case (Cons m ms)
  from Cons.prems obtain additions where
    a: "map_of sets m = Some additions"
       "merge_modes pools_path sets ms (merge_mode additions m st) = Inr st'"
    by (auto split: option.splits)
  show ?case
    by (rule state_extends_trans[OF merge_mode_extends Cons.IH[OF a(2)]])
qed

lemma merge_modes_repeat:
  "merge_modes pools_path sets (m # ms2 @ m # ms3) st = merge_modes pools_path sets (m # ms2 @ ms3) st"
proof (cases "map_of sets m")
  case None
  then show ?thesis by simp
next
  case (Some additions)
  let ?st1 = "merge_mode additions m st"
  show ?thesis
  proof (cases "merge_modes pools_path sets ms2 ?st1")
    case (Inl e)
    then show ?thesis using Some by (simp add: merge_modes_append)
  next
    case (Inr st2)
    have "absorbed additions m st2"
      by (rule absorbed_mono[OF merge_mode_absorbs merge_modes_extends[OF Inr]])
    then have "merge_mode additions m st2 = st2" by (rule merge_mode_absorbed)
    then show ?thesis using Some Inr by (simp add: merge_modes_append)
  qed
qed

lemma merge_modes_idempotent:
  "merge_modes pools_path sets (ms1 @ m # ms2 @ m # ms3) st = merge_modes pools_path sets (ms1 @ m # ms2 @ ms3) st"
  by (simp only: merge_modes_append[of pools_path sets ms1] merge_modes_repeat)

lemma merge_key_distinct:
  assumes "merge_key m key vs (d, sm) = (d', sm')" and "lists_distinct d"
  shows "lists_distinct d'"
  unfolding lists_distinct_def
proof (intro allI impI)
  fix k xs assume kx: "map_of d' k = Some xs"
  let ?d1 = "setdefault key [] d"
  let ?dl = "get_default ?d1 key []"
  from assms(1) have d': "d' = dict_set key (extend_unique ?dl vs) ?d1"
    by (simp add: merge_key_result)
  show "distinct xs"
  proof (cases "k = key")
    case True
    have "distinct ?dl"
    proof (cases "map_of d key")
      case None
      then show ?thesis by (simp add: get_default_def map_of_setdefault)
    next
      case (Some v)
      then have "?dl = v" by (simp add: get_default_def map_of_setdefault)
      moreover have "distinct v" using assms(2) Some unfolding lists_distinct_def by blast
      ultimately show ?thesis by simp
    qed
    then have "distinct (extend_unique ?dl vs)" by (rule distinct_extend_unique)
    moreover from kx True have "xs = extend_unique ?dl vs" unfolding d' by simp
    ultimately show ?thesis by simp
  next
    case False
    with kx have "map_of d k = Some xs" unfolding d' by (simp add: map_of_setdefault)
    then show ?thesis using assms(2) unfolding lists_distinct_def by blast
  qed
qed

lemma merge_keys_distinct:
  "merge_keys m adds (d, sm) = (d', sm') \<Longrightarrow> lists_distinct d \<Longrightarrow> lists_distinct d'"
proof (induction adds arbitrary: d sm)
  case Nil
  then show ?case by simp
next
  case (Cons a adds)
  obtain key vs where a: "a = (key, vs)" by (cases a)
  obtain d1 sm1 where s1: "merge_key m key vs (d, sm) = (d1, sm1)"
    by (cases "merge_key m key vs (d, sm)")
  from Cons.prems(1) a s1 have rest: "merge_keys m adds (d1, sm1) = (d', sm')" by simp
  from merge_key_distinct[OF s1 Cons.prems(2)] have "lists_distinct d1" .
  from Cons.IH[OF rest this] show ?case .
qed

lemma all_distinct_section:
  "all_distinct C \<Longrightarrow> map_of C s = Some d \<Longrightarrow> lists_distinct d"
  unfolding all_distinct_def lists_distinct_def tokens_def
  by (metis option.simps(5))

lemma merge_section_distinct:
  assumes "all_distinct (fst st)"
  shows "all_distinct (fst (merge_section s adds m st))"
  unfolding all_distinct_def
proof (intro allI impI)
  fix s' k xs
  obtain C S where st: "st = (C, S)" by (cases st)
  let ?C1 = "setdefault s [] C" and ?S1 = "setdefault s [] S"
  obtain ds ss where mk: "merge_keys m adds (get_default ?C1 s [], get_default ?S1 s []) = (ds, ss)"
    by (cases "merge_keys m adds (get_default ?C1 s [], get_default ?S1 s [])")
  have C': "fst (merge_section s adds m st) = dict_set s ds ?C1"
    by (simp add: st merge_section_result mk)
  assume t: "tokens (fst (merge_section s adds m st)) s' k = Some xs"
  show "distinct xs"
  proof (cases "s' = s")
    case True
    with t have dk: "map_of ds k = Some xs"
      unfolding C' by (simp add: tokens_def)
    have "lists_distinct (get_default ?C1 s [])"
    proof (cases "map_of C s")
      case None
      then show ?thesis by (simp add: get_default_def map_of_setdefault lists_distinct_def)
    next
      case (Some d)
      then have "get_default ?C1 s [] = d" by (simp add: get_default_def map_of_setdefault)
      moreover have "lists_distinct d"
        using all_distinct_section[OF _ Some] assms by (simp add: st)
      ultimately show ?thesis by simp
    qed
    from merge_keys_distinct[OF mk this] dk show ?thesis
      unfolding lists_distinct_def by blast
  next
    case False
    with t have "tokens C s' k = Some xs"
      unfolding C' by (simp add: tokens_def map_of_setdefault)
    moreover have "all_distinct C" using assms by (simp add: st)
    ultimately show ?thesis unfolding all_distinct_def by blast
  qed
qed

lemma merge_mode_distinct:
  "all_distinct (fst st) \<Longrightarrow> all_distinct (fst (merge_mode additions m st))"
proof (induction additions arbitrary: st)
  case Nil
  then show ?case by simp
next
  case (Cons a additions)
  obtain s adds where a: "a = (s, adds)" by (cases a)
  have "all_distinct (fst (merge_section s adds m st))"
    by (rule merge_section_distinct[OF Cons.prems])
  from Cons.IH[OF this] show ?case by (simp add: a)
qed

lemma merge_modes_distinct:
  "merge_modes pools_path sets ms st = Inr st' \<Longrightarrow> all_distinct (fst st) \<Longrightarrow> all_distinct (fst st')"
proof (induction ms arbitrary: st)
  case Nil
  then show ?case by simp
next
  case (Cons m ms)
  from Cons.prems(1) obtain additions where
    a: "map_of sets m = Some additions"
       "merge_modes pools_path sets ms (merge_mode additions m st) = Inr st'"
    by (auto split: option.splits)
  have "all_distinct (fst (merge_mode additions m st))"
    by (rule merge_mode_distinct[OF Cons.prems(2)])
  from Cons.IH[OF a(2) this] show ?case .
qed

lemma state_extends_tokens:
  assumes "state_extends st st'" and "tokens (fst st) s k = Some xs"
  shows "\<exists>ys. tokens (fst st') s k = Some (xs @ ys)"
proof -
  from assms(2) obtain d where d: "map_of (fst st) s = Some d" "map_of d k = Some xs"
    by (auto simp: tokens_def split: option.splits)
  from assms(1) have e: "extends (extends prefix) (fst st) (fst st')"
    by (simp add: state_extends_def)
  from extendsD[OF e d(1)] obtain d' where d': "map_of (fst st') s = Some d'" "extends prefix d d'"
    by blast
  from extendsD[OF d'(2) d(2)] obtain xs' where "map_of d' k = Some xs'" "prefix xs xs'"
    by blast
  then show ?thesis using d'(1) by (auto simp: tokens_def prefix_def)
qed

text \<open>
  Claim C7: merging is order-stable and duplicate-free, and repeating a mode changes
  nothing. If the modes \<open>ms\<close> merge to \<open>st\<close> and the longer list \<open>ms @ ms'\<close> to \<open>st'\<close>,
  every candidate list of \<open>st\<close> is an initial segment of the list \<open>st'\<close> has for the same
  section and subcategory (each token keeps the position the first mode gave it, later
  modes only append), and that list repeats no token. A mode listed a second time,
  anywhere after its first occurrence, leaves the merged pool and its provenance table
  as they are without it; a missing mode ends both runs with the same error.
\<close>

theorem merge_order_stable_idempotent:
  "(merge_modes pools_path sets ms ([], []) = Inr st \<longrightarrow>
    merge_modes pools_path sets (ms @ ms') ([], []) = Inr st' \<longrightarrow>
      (\<forall>s k xs. tokens (fst st) s k = Some xs \<longrightarrow>
         (\<exists>ys. tokens (fst st') s k = Some (xs @ ys) \<and> distinct (xs @ ys))))
   \<and> merge_modes pools_path sets (ms1 @ m # ms2 @ m # ms3) ([], []) =
       merge_modes pools_path sets (ms1 @ m # ms2 @ ms3) ([], [])"
proof (intro conjI impI allI)
  fix s k xs
  assume a: "merge_modes pools_path sets ms ([], []) = Inr st"
    and b: "merge_modes pools_path sets (ms @ ms') ([], []) = Inr st'"
    and t: "tokens (fst st) s k = Some xs"
  from a b have "merge_modes pools_path sets ms' st = Inr st'" by (simp add: merge_modes_append)
  from state_extends_tokens[OF merge_modes_extends[OF this] t]
  obtain ys where ys: "tokens (fst st') s k = Some (xs @ ys)" by blast
  have "all_distinct (fst (([], []) :: merge_state))"
    by (simp add: all_distinct_def tokens_def)
  from merge_modes_distinct[OF b this] have "all_distinct (fst st')" .
  then have "distinct (xs @ ys)" using ys unfolding all_distinct_def by blast
  with ys show "\<exists>ys. tokens (fst st') s k = Some (xs @ ys) \<and> distinct (xs @ ys)" by blast
next
  show "merge_modes pools_path sets (ms1 @ m # ms2 @ m # ms3) ([], []) =
       merge_modes pools_path sets (ms1 @ m # ms2 @ ms3) ([], [])"
    by (rule merge_modes_idempotent)
qed

theorem merge_order_stable_idempotent_witness:
  "(\<exists>ys. tokens
           (fst ([(''composition'', [(''quality'', [''a'', ''x''])]), (''action'', []),
                  (''subject'', []), (''environment'', [])],
                 [(''composition'',
                   [(''quality'', [(''general'', [''a'']), (''mature'', [''x'']),
                                   (''spicy'', [''x''])])]),
                  (''action'', []), (''subject'', []), (''environment'', [])]))
           ''composition'' ''quality'' = Some ([''a''] @ ys) \<and> distinct ([''a''] @ ys))
   \<and> merge_modes ''pools.json'' (doc_sets overlap_doc)
         ([''general''] @ ''mature'' # [''spicy''] @ ''mature'' # []) ([], [])
     = merge_modes ''pools.json'' (doc_sets overlap_doc)
         ([''general''] @ ''mature'' # [''spicy''] @ []) ([], [])"
proof -
  let ?st = "([(''composition'', [(''quality'', [''a''])]), (''action'', []),
               (''subject'', []), (''environment'', [])],
              [(''composition'', [(''quality'', [(''general'', [''a''])])]),
               (''action'', []), (''subject'', []), (''environment'', [])]) :: merge_state"
  let ?st' = "([(''composition'', [(''quality'', [''a'', ''x''])]), (''action'', []),
                (''subject'', []), (''environment'', [])],
               [(''composition'',
                 [(''quality'', [(''general'', [''a'']), (''mature'', [''x'']),
                                 (''spicy'', [''x''])])]),
                (''action'', []), (''subject'', []), (''environment'', [])]) :: merge_state"
  have h1: "merge_modes ''pools.json'' (doc_sets overlap_doc) [''general''] ([], []) = Inr ?st"
    by code_simp
  have h2: "merge_modes ''pools.json'' (doc_sets overlap_doc)
              ([''general''] @ [''mature'', ''spicy'']) ([], []) = Inr ?st'"
    by code_simp
  have h3: "tokens (fst ?st) ''composition'' ''quality'' = Some [''a'']"
    by (simp add: tokens_def)
  from merge_order_stable_idempotent[of "''pools.json''" "doc_sets overlap_doc" "[''general'']" ?st
      "[''mature'', ''spicy'']" ?st' "[''general'']" "''mature''" "[''spicy'']" "[]"]
    h1 h2 h3
  show ?thesis by blast
qed

section \<open>Properties of the node ids\<close>

declare str_nat.simps [simp del]

lemma of_char_digit_char: "d < 10 \<Longrightarrow> (of_char (digit_char d) :: nat) = 48 + d"
  by (simp add: digit_char_def)

lemma is_digit_digit_char: "d < 10 \<Longrightarrow> is_digit (digit_char d)"
  by (simp add: is_digit_def of_char_digit_char)

lemma digit_val_digit_char: "d < 10 \<Longrightarrow> digit_val (digit_char d) = d"
  by (simp add: digit_val_def of_char_digit_char)

lemma is_digit_not_space: "is_digit c \<Longrightarrow> \<not> is_space c"
  by (auto simp: is_digit_def is_space_def)

lemma is_digit_not_sign: "is_digit c \<Longrightarrow> c \<noteq> CHR ''-'' \<and> c \<noteq> CHR ''+''"
  by (auto simp: is_digit_def)

lemma str_nat_digits: "c \<in> set (str_nat n) \<Longrightarrow> is_digit c"
proof (induction n arbitrary: c rule: str_nat.induct)
  case (1 n)
  show ?case
  proof (cases "n < 10")
    case True
    with "1.prems" show ?thesis by (simp add: str_nat.simps[of n] is_digit_digit_char)
  next
    case False
    with "1.prems" "1.IH" show ?thesis
      by (auto simp: str_nat.simps[of n] is_digit_digit_char)
  qed
qed

lemma str_nat_not_Nil: "str_nat n \<noteq> []"
  by (simp add: str_nat.simps[of n])

lemma digits_val_all_digits:
  "(\<And>c. c \<in> set ds \<Longrightarrow> is_digit c) \<Longrightarrow>
     digits_val acc ds = Some (foldl (\<lambda>a c. 10 * a + digit_val c) acc ds)"
  by (induction ds arbitrary: acc) simp_all

lemma foldl_str_nat: "foldl (\<lambda>a c. 10 * a + digit_val c) 0 (str_nat n) = n"
proof (induction n rule: str_nat.induct)
  case (1 n)
  show ?case
  proof (cases "n < 10")
    case True
    then show ?thesis by (simp add: str_nat.simps[of n] digit_val_digit_char)
  next
    case False
    with "1.IH" show ?thesis
      by (simp add: str_nat.simps[of n] digit_val_digit_char)
  qed
qed

lemma parse_nat_str_nat: "parse_nat (str_nat n) = Some n"
proof -
  have "is_digit (hd (str_nat n))"
    using str_nat_not_Nil[of n] str_nat_digits[of "hd (str_nat n)" n] by simp
  then show ?thesis
    using digits_val_all_digits[of "str_nat n" 0] str_nat_digits[of _ n]
    by (simp add: parse_nat_def str_nat_not_Nil foldl_str_nat)
qed

lemma strip_id:
  assumes "s \<noteq> []" and "\<not> is_space (hd s)" and "\<not> is_space (last s)"
  shows "strip s = s"
proof -
  have a: "dropWhile is_space s = s" using assms(2) by (simp add: dropWhile_eq_self_iff)
  have "hd (rev s) = last s" using assms(1) by (simp add: hd_rev)
  then have "dropWhile is_space (rev s) = rev s"
    using assms(3) by (simp add: dropWhile_eq_self_iff)
  with a show ?thesis by (simp add: strip_def)
qed

lemma strip_str_nat: "strip (str_nat n) = str_nat n"
proof (rule strip_id)
  show "str_nat n \<noteq> []" by (rule str_nat_not_Nil)
  show "\<not> is_space (hd (str_nat n))"
    using str_nat_not_Nil[of n] str_nat_digits[of "hd (str_nat n)" n] by (simp add: is_digit_not_space)
  show "\<not> is_space (last (str_nat n))"
    using str_nat_not_Nil[of n] str_nat_digits[of "last (str_nat n)" n] by (simp add: is_digit_not_space)
qed

lemma py_int_py_str: "py_int (py_str i) = Some i"
proof (cases "i < 0")
  case True
  let ?s = "CHR ''-'' # str_nat (nat (- i))"
  have "strip ?s = ?s"
  proof (rule strip_id)
    show "?s \<noteq> []" by simp
    show "\<not> is_space (hd ?s)" by (simp add: is_space_def)
    show "\<not> is_space (last ?s)"
      using str_nat_not_Nil[of "nat (- i)"] str_nat_digits[of "last (str_nat (nat (- i)))" "nat (- i)"]
      by (simp add: is_digit_not_space)
  qed
  then show ?thesis using True by (simp add: py_int_def py_str_def parse_nat_str_nat)
next
  case False
  obtain c r where cr: "str_nat (nat i) = c # r"
    using str_nat_not_Nil[of "nat i"] by (cases "str_nat (nat i)") auto
  have "is_digit c" using str_nat_digits[of c "nat i"] cr by simp
  then have "c \<noteq> CHR ''-''" "c \<noteq> CHR ''+''" using is_digit_not_sign by blast+
  moreover have "parse_nat (c # r) = Some (nat i)" using parse_nat_str_nat[of "nat i"] cr by simp
  ultimately show ?thesis using False strip_str_nat[of "nat i"] cr
    by (simp add: py_int_def py_str_def)
qed

lemma py_str_inj: "py_str a = py_str b \<Longrightarrow> a = b"
  by (metis py_int_py_str option.inject)

lemma existing_ids_member:
  assumes "existing_ids data = Inr ids" and "k \<in> fst ` set data"
  shows "\<exists>i \<in> ids. py_int k = Some i"
proof -
  from assms(1) have all: "list_all (\<lambda>k. py_int k \<noteq> None) (map fst data)"
    and ids: "ids = set (map (\<lambda>k. the (py_int k)) (map fst data))"
    by (auto simp: existing_ids_def split: if_splits)
  from all assms(2) obtain i where i: "py_int k = Some i" by (auto simp: list_all_iff)
  from assms(2) have "the (py_int k) \<in> ids" unfolding ids by auto
  with i show ?thesis by simp
qed

lemma existing_ids_finite: "existing_ids data = Inr ids \<Longrightarrow> finite ids"
  by (auto simp: existing_ids_def split: if_splits)

lemma next_id_fresh:
  assumes "existing_ids data = Inr ids"
  shows "fst (next_id ids) \<notin> fst ` set data"
proof
  let ?n = "if ids \<noteq> {} then Max ids + 1 else 1"
  assume "fst (next_id ids) \<in> fst ` set data"
  then have "py_str ?n \<in> fst ` set data" by (simp add: next_id_def Let_def)
  from existing_ids_member[OF assms this] have "?n \<in> ids" by (simp add: py_int_py_str)
  then have "ids \<noteq> {}" "Max ids + 1 \<in> ids" by (auto split: if_splits)
  then have "Max ids + 1 \<le> Max ids" using Max_ge[OF existing_ids_finite[OF assms]] by blast
  then show False by simp
qed

lemma map_fst_dict_set:
  "map fst (dict_set k v d) = (if k \<in> fst ` set d then map fst d else map fst d @ [k])"
  by (induction d) auto

lemma keys_dict_set: "fst ` set (dict_set k v d) = insert k (fst ` set d)"
  by (induction d) auto

lemma existing_ids_dict_set_new:
  assumes "existing_ids data = Inr ids" and "next_id ids = (new, ids')"
  shows "existing_ids (dict_set new node data) = Inr ids'"
proof -
  let ?n = "if ids \<noteq> {} then Max ids + 1 else 1"
  from assms(2) have n: "new = py_str ?n" "ids' = insert ?n ids"
    by (auto simp: next_id_def Let_def)
  have fresh: "new \<notin> fst ` set data" using next_id_fresh[OF assms(1)] assms(2) by simp
  have keys: "map fst (dict_set new node data) = map fst data @ [new]"
    using fresh by (simp add: map_fst_dict_set)
  have "py_int new = Some ?n" unfolding n by (rule py_int_py_str)
  then show ?thesis using assms(1) unfolding existing_ids_def keys n(2)
    by (auto split: if_splits)
qed

lemma existing_ids_dict_set_old:
  "k \<in> fst ` set data \<Longrightarrow> existing_ids (dict_set k node data) = existing_ids data"
  by (simp add: existing_ids_def map_fst_dict_set)

text \<open>
  Claim C6: on a graph whose ids all read as integers, with \<open>ids\<close> the set the branch
  computes from it, \<^verbatim>\<open>next_id\<close> returns the decimal of \<open>Max ids + 1\<close> (of 1 for no ids)
  and adds that number to the set at once. Two successive allocations \<open>a\<close> and \<open>b\<close> are
  different from each other and from every id of the graph. After the node with the
  new id is stored, the set computed afresh from the graph is the set \<^verbatim>\<open>next_id\<close> left
  behind: the IPAdapter branch, which recomputes the set after the ControlNet branch
  has added nodes, continues the same sequence.
\<close>

theorem next_id_never_reuses:
  assumes "existing_ids data = Inr ids"
    and "next_id ids = (a, ids1)" and "next_id ids1 = (b, ids2)"
  shows "a = py_str (if ids \<noteq> {} then Max ids + 1 else 1) \<and>
         b = py_str (Max ids1 + 1) \<and>
         a \<notin> fst ` set data \<and> b \<notin> fst ` set data \<and> a \<noteq> b \<and>
         existing_ids (dict_set a node data) = Inr ids1"
proof -
  have e1: "existing_ids (dict_set a node data) = Inr ids1"
    by (rule existing_ids_dict_set_new[OF assms(1,2)])
  have fa: "a \<notin> fst ` set data" using next_id_fresh[OF assms(1)] assms(2) by simp
  have fb: "b \<notin> fst ` set (dict_set a node data)" using next_id_fresh[OF e1] assms(3) by simp
  have keys: "fst ` set (dict_set a node data) = insert a (fst ` set data)"
    by (rule keys_dict_set)
  have "ids1 \<noteq> {}" using assms(2) by (auto simp: next_id_def Let_def)
  then have b: "b = py_str (Max ids1 + 1)" using assms(3) by (auto simp: next_id_def Let_def)
  have a: "a = py_str (if ids \<noteq> {} then Max ids + 1 else 1)"
    using assms(2) by (auto simp: next_id_def Let_def)
  have fb': "b \<notin> fst ` set data" and ab: "a \<noteq> b" using fb keys by auto
  from a b fa fb' ab e1 show ?thesis by blast
qed

theorem next_id_never_reuses_witness:
  "next_id {1, 3} = (''4'', {1, 3, 4}) \<and> next_id {1, 3, 4} = (''5'', {1, 3, 4, 5}) \<and>
   ''4'' \<notin> fst ` set [(''1'', JNull), (''3'', JNull)] \<and>
   ''5'' \<notin> fst ` set [(''1'', JNull), (''3'', JNull)] \<and>
   existing_ids (dict_set ''4'' JNull [(''1'', JNull), (''3'', JNull)]) = Inr {1, 3, 4}"
proof -
  have h1: "existing_ids [(''1'', JNull), (''3'', JNull)] = Inr {1, 3}" by code_simp
  have h2: "next_id {1, 3} = (''4'', {1, 3, 4})" by code_simp
  have h3: "next_id {1, 3, 4} = (''5'', {1, 3, 4, 5})" by code_simp
  from next_id_never_reuses[OF h1 h2 h3, of JNull] h2 h3 show ?thesis by blast
qed

text \<open>
  A run with both insertions on the example workflow, whose ids are 3, 4, 6 and 7: the
  ControlNet branch adds 8, 9 and 10, the IPAdapter branch 11, 12 and 13.
\<close>

lemma both_branches_allocate_in_sequence:
  "map_sum id (map fst)
     (fst (patch_graph plain_paths disk
             (controlnet_args\<lparr>arg_add_ipadapter := True,
                              arg_ipadapter_image := Some ''img/pose.png''\<rparr>)
             ''X'' ''Y'' (JObj base_graph)))
   = Inr [''3'', ''4'', ''6'', ''7'', ''8'', ''9'', ''10'', ''11'', ''12'', ''13'']"
  by code_simp

section \<open>Properties of a patch run\<close>

subsection \<open>Updating a node\<close>

lemma map_of_dict_update_other:
  "k \<notin> fst ` set kvs \<Longrightarrow> map_of (dict_update kvs inputs) k = map_of inputs k"
  unfolding dict_update_def
  by (induction kvs arbitrary: inputs) auto

lemma map_of_dict_update_named:
  "distinct (map fst kvs) \<Longrightarrow> (k, v) \<in> set kvs \<Longrightarrow> map_of (dict_update kvs inputs) k = Some v"
  unfolding dict_update_def
proof (induction kvs arbitrary: inputs)
  case Nil
  then show ?case by simp
next
  case (Cons kv kvs)
  show ?case
  proof (cases "(k, v) = kv")
    case True
    then have "k \<notin> fst ` set kvs" using Cons.prems(1) by force
    from map_of_dict_update_other[OF this, of "dict_set k v inputs"] True[symmetric]
    show ?thesis by (simp add: dict_update_def)
  next
    case False
    with Cons show ?thesis by auto
  qed
qed

text \<open>
  What the merging updates achieve: on a node with an inputs mapping (or none) the
  update succeeds, keeps every key of the node but \<^verbatim>\<open>inputs\<close>, keeps every input the
  update does not name and sets every input it names.
\<close>

lemma update_node_merges:
  assumes "map_of data node_id = Some (JObj flds)" and "node_inputs flds = Inr inputs"
  shows "\<exists>data' flds' inputs'.
           update_node node_id kvs data = Inr data' \<and>
           map_of data' node_id = Some (JObj flds') \<and>
           (\<forall>f. f \<noteq> ''inputs'' \<longrightarrow> map_of flds' f = map_of flds f) \<and>
           map_of flds' ''inputs'' = Some (JObj inputs') \<and>
           (\<forall>k. k \<notin> fst ` set kvs \<longrightarrow> map_of inputs' k = map_of inputs k) \<and>
           (distinct (map fst kvs) \<longrightarrow> (\<forall>(k, v) \<in> set kvs. map_of inputs' k = Some v))"
proof -
  let ?inputs' = "dict_update kvs inputs"
  let ?flds' = "dict_set ''inputs'' (JObj ?inputs') flds"
  let ?data' = "dict_set node_id (JObj ?flds') data"
  have "update_node node_id kvs data = Inr ?data'"
    using assms by (simp add: update_node_def merge_inputs_def)
  moreover have "map_of ?data' node_id = Some (JObj ?flds')" by simp
  moreover have "\<forall>f. f \<noteq> ''inputs'' \<longrightarrow> map_of ?flds' f = map_of flds f" by simp
  moreover have "map_of ?flds' ''inputs'' = Some (JObj ?inputs')" by simp
  moreover have "\<forall>k. k \<notin> fst ` set kvs \<longrightarrow> map_of ?inputs' k = map_of inputs k"
    by (simp add: map_of_dict_update_other)
  moreover have "distinct (map fst kvs) \<longrightarrow> (\<forall>(k, v) \<in> set kvs. map_of ?inputs' k = Some v)"
    by (auto simp: map_of_dict_update_named)
  ultimately show ?thesis by (intro exI conjI)
qed

text \<open>
  Claim C4 (every upsert of an existing node merges the given inputs into the node's
  inputs and keeps the keys the update does not name, in particular for the IPAdapter
  loader and advanced nodes), evaluated on the code at \<open>adapter_graph\<close>: node 8 is an
  \<^verbatim>\<open>IPAdapterAdvanced\<close> node with the inputs \<^verbatim>\<open>weight\<close> and \<^verbatim>\<open>clip_vision\<close>. After a run
  with the IPAdapter insertion its inputs are exactly the nine the branch builds, and
  \<^verbatim>\<open>clip_vision\<close>, which the update does not name, is gone.
\<close>

theorem ipadapter_upsert_drops_inputs:
  "map_of adapter_graph ''8'' =
     Some (JObj [(''class_type'', JStr ''IPAdapterAdvanced''),
                 (''inputs'', JObj [(''weight'', JFloat (1 / 2)),
                                    (''clip_vision'', JList [JStr ''5'', JInt 0])])])
   \<and> map_sum id (\<lambda>d. map_of d ''8'')
        (fst (patch_graph plain_paths disk adapter_args ''X'' ''Y'' (JObj adapter_graph)))
     = Inr (Some (JObj [(''class_type'', JStr ''IPAdapterAdvanced''),
                        (''inputs'', JObj (advanced_inputs adapter_args ''9'' ''10''))]))
   \<and> map_of (advanced_inputs adapter_args ''9'' ''10'') ''clip_vision'' = None"
  by code_simp

subsection \<open>The write of the document\<close>






text \<open>
  The trace of a failed run need not be empty: the branches create the input directory
  and copy the reference image before their later checks. Here the workflow has no
  sampler, and the run fails after the copy.
\<close>

lemma failed_run_after_copy:
  "patch_graph plain_paths disk controlnet_args ''X'' ''Y'' (JObj (tl base_graph)) =
     (Inl (SystemExit ''KSampler node not found; cannot insert ControlNet.''),
      [Mkdir ''input'', Copy ''img/pose.png'' ''input/pose.png''])"
  by code_simp




subsection \<open>The checks of the ControlNet branch\<close>

lemma controlnet_missing_argument:
  assumes "arg_add_controlnet a"
    and "truthy (arg_controlnet a) = None \<or> truthy (arg_control_image a) = None"
  shows "controlnet_step pl fs a data tr =
           (Inl (SystemExit ''--add-controlnet requires --controlnet and --control-image''), tr)"
  using assms by (auto simp: controlnet_step_def split: option.splits)

lemma controlnet_missing_image:
  assumes "arg_add_controlnet a"
    and "truthy (arg_controlnet a) = Some controlnet"
    and "truthy (arg_control_image a) = Some control_image"
    and "existing_ids data = Inr ids"
    and "upsert (find_node_id ''ControlNetLoader'' data) ''ControlNetLoader''
           [(''control_net_name'', JStr controlnet)] ids data = Inr loaded"
    and "\<not> path_exists fs (tr @ [Mkdir (input_dir pl (arg_workflow a))]) (expanduser pl control_image)"
  shows "controlnet_step pl fs a data tr =
           (Inl (SystemExit (''Control image not found: '' @ expanduser pl control_image)),
            tr @ [Mkdir (input_dir pl (arg_workflow a))])"
proof -
  obtain cid ids' data' where l: "loaded = (cid, ids', data')" by (cases loaded)
  have "stage_image pl fs (arg_workflow a) control_image ''Control image not found: '' tr =
          (Inl (SystemExit (''Control image not found: '' @ expanduser pl control_image)),
           tr @ [Mkdir (input_dir pl (arg_workflow a))])"
    using assms(6) by (simp add: stage_image_def Let_def)
  then show ?thesis
    using assms(1-5) l by (simp add: controlnet_step_def Let_def)
qed

text \<open>
  A run that gets to the ControlNet branch ends with the error of that branch, if it
  has one.
\<close>

lemma reaches_controlnet_error:
  assumes "reaches_controlnet nxt sd fs a g d"
    and "controlnet_step pl fs a d [] = (Inl e, tr)"
  shows "main nxt sd pl fs a g = (Inl e, tr)"
proof -
  from assms(1) have ex: "path_exists fs [] (arg_workflow a)" and dr: "\<not> arg_dry_run a"
    by (simp_all add: reaches_controlnet_def)
  from assms(1) obtain ptext ntext where rp: "run_prompt nxt sd fs a g = Inr (ptext, ntext)"
    by (cases "run_prompt nxt sd fs a g") (auto simp: reaches_controlnet_def)
  from assms(1) rp obtain doc where rj: "read_json fs (arg_workflow a) = Inr doc"
    by (cases "read_json fs (arg_workflow a)") (auto simp: reaches_controlnet_def)
  from assms(1) rp rj obtain d0 where i: "inject_text a ptext ntext doc = Inr d0"
    by (cases "inject_text a ptext ntext doc") (auto simp: reaches_controlnet_def)
  from assms(1) rp rj i obtain d1 where l: "lora_step a d0 = Inr d1"
    by (cases "lora_step a d0") (auto simp: reaches_controlnet_def)
  from assms(1) rp rj i l have c: "clip_step a d1 = Inr d"
    by (simp add: reaches_controlnet_def)
  have "patch_graph pl fs a ptext ntext doc = (Inl e, tr)"
    using i l c assms(2) by (simp add: patch_graph_def)
  then show ?thesis
    using ex dr rp rj by (simp add: main_def)
qed

text \<open>
  When the model name or the image argument is missing, the graph part of a run ends
  with an error and an empty trace: with the error of an earlier stage, or with that
  of the argument check.
\<close>

lemma patch_graph_missing_argument:
  assumes "arg_add_controlnet a"
    and "truthy (arg_controlnet a) = None \<or> truthy (arg_control_image a) = None"
  shows "\<exists>e. patch_graph pl fs a ptext ntext doc = (Inl e, [])"
  using controlnet_missing_argument[OF assms, of pl fs _ "[]"]
  by (auto simp: patch_graph_def split: sum.splits)

lemma main_missing_argument:
  assumes "arg_add_controlnet a"
    and "truthy (arg_controlnet a) = None \<or> truthy (arg_control_image a) = None"
  shows "snd (main nxt sd pl fs a g) = [] \<and>
         (\<forall>path data. fst (main nxt sd pl fs a g) \<noteq> Inr (Saved path data))"
proof (cases "path_exists fs [] (arg_workflow a)")
  case False
  then show ?thesis by (simp add: main_def)
next
  case ex: True
  show ?thesis
  proof (cases "run_prompt nxt sd fs a g")
    case (Inl e)
    then show ?thesis using ex by (simp add: main_def)
  next
    case (Inr texts)
    obtain ptext ntext where t: "texts = (ptext, ntext)" by (cases texts)
    show ?thesis
    proof (cases "arg_dry_run a")
      case True
      then show ?thesis using ex Inr t by (simp add: main_def)
    next
      case dr: False
      show ?thesis
      proof (cases "read_json fs (arg_workflow a)")
        case (Inl e)
        then show ?thesis using ex Inr t dr by (simp add: main_def)
      next
        case rj: (Inr doc)
        from patch_graph_missing_argument[OF assms, of pl fs ptext ntext doc]
        obtain e where "patch_graph pl fs a ptext ntext doc = (Inl e, [])" by blast
        then show ?thesis using ex Inr t dr rj by (simp add: main_def)
      qed
    qed
  qed
qed

text \<open>
  Claim C9 as stated (every invocation that requests the insertion without one of its
  arguments fails with the missing-argument error; with both arguments and no image
  file it fails with the file-not-found error) does not hold. A dry run returns before
  the workflow is read: it prints the prompt and does not fail. The checks of the
  text encoders come before the branch: with a positive id that names the sampler the
  run ends with their message. And the branch reads every node id as an integer
  before it looks for the image: on a workflow with the top-level key \<^verbatim>\<open>title\<close> the
  run ends with \<^verbatim>\<open>ValueError\<close>.
\<close>

theorem controlnet_checks_not_reached:
  "arg_add_controlnet (controlnet_args\<lparr>arg_controlnet := None, arg_dry_run := True\<rparr>)
   \<and> truthy (arg_controlnet (controlnet_args\<lparr>arg_controlnet := None, arg_dry_run := True\<rparr>)) = None
   \<and> (case main counter_nxt counter_seed plain_paths disk
             (controlnet_args\<lparr>arg_controlnet := None, arg_dry_run := True\<rparr>) 0 of
        (Inr (DryRun ptext ntext), tr) \<Rightarrow> tr = []
      | _ \<Rightarrow> False)
   \<and> main counter_nxt counter_seed plain_paths disk
        (controlnet_args\<lparr>arg_controlnet := None, arg_pos_node := ''3''\<rparr>) 0 =
       (Inl (SystemExit ''Node 3 is not a CLIPTextEncode block.''), [])
   \<and> \<not> path_exists titled_disk [Mkdir ''input''] ''img/none.png''
   \<and> main counter_nxt counter_seed plain_paths titled_disk
        (controlnet_args\<lparr>arg_control_image := Some ''img/none.png''\<rparr>) 0 = (Inl ValueError, [])"
  by code_simp

text \<open>
  Claim C9, amended. The script raises \<^verbatim>\<open>SystemExit\<close> with a message at each of its
  checks; the spec's \<^verbatim>\<open>MissingArgumentError\<close> is the message of the argument check and
  its \<^verbatim>\<open>FileNotFoundError\<close> the message of the image check. For a run that requests the
  ControlNet insertion:

  \<^item> when the model name or the image argument is missing (absent or empty), the run
    performs no file operation and writes no document, however it ends; and when it
    is not a dry run and gets to the ControlNet branch, it ends with the
    missing-argument message;

  \<^item> when both arguments are given, the run is not a dry run and gets to the branch,
    every node id reads as an integer and the loader node is updated or created, but
    the image does not exist, the run ends with the image-not-found message; it has
    created the input directory and done nothing else.
\<close>

theorem controlnet_argument_checks:
  assumes "arg_add_controlnet a"
  shows
  "(truthy (arg_controlnet a) = None \<or> truthy (arg_control_image a) = None \<longrightarrow>
      snd (main nxt sd pl fs a g) = [] \<and>
      (\<forall>path data. fst (main nxt sd pl fs a g) \<noteq> Inr (Saved path data)) \<and>
      (reaches_controlnet nxt sd fs a g d \<longrightarrow>
         main nxt sd pl fs a g =
           (Inl (SystemExit ''--add-controlnet requires --controlnet and --control-image''), [])))
   \<and> (truthy (arg_controlnet a) = Some controlnet \<and>
        truthy (arg_control_image a) = Some control_image \<and>
        reaches_controlnet nxt sd fs a g d \<and>
        existing_ids d = Inr ids \<and>
        upsert (find_node_id ''ControlNetLoader'' d) ''ControlNetLoader''
          [(''control_net_name'', JStr controlnet)] ids d = Inr loaded \<and>
        \<not> path_exists fs [Mkdir (input_dir pl (arg_workflow a))] (expanduser pl control_image)
      \<longrightarrow> main nxt sd pl fs a g =
            (Inl (SystemExit (''Control image not found: '' @ expanduser pl control_image)),
             [Mkdir (input_dir pl (arg_workflow a))]))"
proof (intro conjI impI)
  assume m: "truthy (arg_controlnet a) = None \<or> truthy (arg_control_image a) = None"
  from main_missing_argument[OF assms m, of nxt sd pl fs g]
  show "snd (main nxt sd pl fs a g) = []"
    and "\<forall>path data. fst (main nxt sd pl fs a g) \<noteq> Inr (Saved path data)"
    by simp_all
  assume r: "reaches_controlnet nxt sd fs a g d"
  from reaches_controlnet_error[OF r controlnet_missing_argument[OF assms m, of pl fs d "[]"]]
  show "main nxt sd pl fs a g =
      (Inl (SystemExit ''--add-controlnet requires --controlnet and --control-image''), [])" .
next
  assume h: "truthy (arg_controlnet a) = Some controlnet \<and>
        truthy (arg_control_image a) = Some control_image \<and>
        reaches_controlnet nxt sd fs a g d \<and>
        existing_ids d = Inr ids \<and>
        upsert (find_node_id ''ControlNetLoader'' d) ''ControlNetLoader''
          [(''control_net_name'', JStr controlnet)] ids d = Inr loaded \<and>
        \<not> path_exists fs [Mkdir (input_dir pl (arg_workflow a))] (expanduser pl control_image)"
  then have np: "\<not> path_exists fs ([] @ [Mkdir (input_dir pl (arg_workflow a))])
                    (expanduser pl control_image)"
    by simp
  from h have r: "reaches_controlnet nxt sd fs a g d" by simp
  from controlnet_missing_image[OF assms _ _ _ _ np, of controlnet d ids loaded] h
  have "controlnet_step pl fs a d [] =
          (Inl (SystemExit (''Control image not found: '' @ expanduser pl control_image)),
           [Mkdir (input_dir pl (arg_workflow a))])"
    by simp
  from reaches_controlnet_error[OF r this]
  show "main nxt sd pl fs a g =
            (Inl (SystemExit (''Control image not found: '' @ expanduser pl control_image)),
             [Mkdir (input_dir pl (arg_workflow a))])" .
qed

theorem controlnet_argument_checks_witness:
  "main counter_nxt counter_seed plain_paths disk (controlnet_args\<lparr>arg_controlnet := None\<rparr>) 0 =
     (Inl (SystemExit ''--add-controlnet requires --controlnet and --control-image''), [])
   \<and> main counter_nxt counter_seed plain_paths disk
        (controlnet_args\<lparr>arg_control_image := Some ''img/none.png''\<rparr>) 0 =
     (Inl (SystemExit ''Control image not found: img/none.png''), [Mkdir ''input''])"
proof -
  let ?a1 = "controlnet_args\<lparr>arg_controlnet := None\<rparr>"
  let ?a2 = "controlnet_args\<lparr>arg_control_image := Some ''img/none.png''\<rparr>"
  let ?d = "dict_set ''7'' (set_text [] [(''text'', JStr []), (''clip'', JList [JStr ''4'', JInt 1])]
                [(''class_type'', JStr ''CLIPTextEncode''),
                 (''inputs'', JObj [(''text'', JStr []), (''clip'', JList [JStr ''4'', JInt 1])])])
             (dict_set ''6'' (set_text [CHR ''a'', CHR 0x0A, CHR 0x0A, CHR 0x0A]
                [(''text'', JStr []), (''clip'', JList [JStr ''4'', JInt 1])]
                [(''class_type'', JStr ''CLIPTextEncode''),
                 (''inputs'', JObj [(''text'', JStr []), (''clip'', JList [JStr ''4'', JInt 1])]),
                 (''_meta'', JObj [(''title'', JStr ''Positive'')])])
              base_graph)"
  let ?loaded = "(''8'', {8, 3, 4, 6, 7},
                  ?d @ [(''8'', new_node ''ControlNetLoader'' [(''control_net_name'', JStr ''cn.pth'')])])"
  have a1: "arg_add_controlnet ?a1"
    "truthy (arg_controlnet ?a1) = None \<or> truthy (arg_control_image ?a1) = None"
    by code_simp+
  have r1: "reaches_controlnet counter_nxt counter_seed disk ?a1 0 ?d"
    by code_simp
  have a2: "arg_add_controlnet ?a2"
    by code_simp
  have h2: "truthy (arg_controlnet ?a2) = Some ''cn.pth'' \<and>
        truthy (arg_control_image ?a2) = Some ''img/none.png'' \<and>
        reaches_controlnet counter_nxt counter_seed disk ?a2 0 ?d \<and>
        existing_ids ?d = Inr {3, 4, 6, 7} \<and>
        upsert (find_node_id ''ControlNetLoader'' ?d) ''ControlNetLoader''
          [(''control_net_name'', JStr ''cn.pth'')] {3, 4, 6, 7} ?d = Inr ?loaded \<and>
        \<not> path_exists disk [Mkdir (input_dir plain_paths (arg_workflow ?a2))]
            (expanduser plain_paths ''img/none.png'')"
    by code_simp
  have e: "expanduser plain_paths ''img/none.png'' = ''img/none.png''"
    "input_dir plain_paths (arg_workflow ?a2) = ''input''"
    by code_simp+
  from controlnet_argument_checks[OF a1(1), where nxt = counter_nxt and sd = counter_seed
      and pl = plain_paths and fs = disk and g = 0 and d = ?d]
    a1(2) r1
  have m1: "main counter_nxt counter_seed plain_paths disk ?a1 0 =
     (Inl (SystemExit ''--add-controlnet requires --controlnet and --control-image''), [])"
    by blast
  from controlnet_argument_checks[OF a2, where nxt = counter_nxt and sd = counter_seed
      and pl = plain_paths and fs = disk and g = 0 and d = ?d and controlnet = "''cn.pth''"
      and control_image = "''img/none.png''" and ids = "{3, 4, 6, 7}" and loaded = ?loaded] h2
  have m2: "main counter_nxt counter_seed plain_paths disk ?a2 0 =
     (Inl (SystemExit (''Control image not found: '' @ expanduser plain_paths ''img/none.png'')),
      [Mkdir (input_dir plain_paths (arg_workflow ?a2))])"
    by blast
  from m1 m2 e show ?thesis by simp
qed

subsection \<open>Text injection alone\<close>

lemma text_node_ok:
  "map_of data node_id = Some (JObj flds) \<Longrightarrow>
   map_of flds ''class_type'' = Some (JStr ''CLIPTextEncode'') \<Longrightarrow>
   text_node data node_id = Inr flds"
  by (simp add: text_node_def)

text \<open>
  Claim C10: with no LoRA, CLIP, ControlNet or IPAdapter request, on a graph whose
  positive and negative ids name \<^verbatim>\<open>CLIPTextEncode\<close> nodes (with an \<^verbatim>\<open>inputs\<close> mapping, or
  none), the run succeeds without touching the file system; the patched graph has the
  same ids in the same order; every other node is unchanged; and in each of the two
  nodes every key but \<^verbatim>\<open>inputs\<close> keeps its value and every input but \<^verbatim>\<open>text\<close> keeps its
  value. The \<^verbatim>\<open>text\<close> input is the negative text in the negative node and the positive
  text in the positive node (the negative text when both ids name one node).
\<close>

theorem text_injection_frame:
  assumes "arg_lora_strength_model a = None" and "arg_lora_strength_clip a = None"
    and "arg_clip_layer a = None" and "\<not> arg_add_controlnet a" and "\<not> arg_add_ipadapter a"
    and "map_of data (arg_pos_node a) = Some (JObj pos_node)"
    and "map_of pos_node ''class_type'' = Some (JStr ''CLIPTextEncode'')"
    and "node_inputs pos_node = Inr pos_inputs"
    and "map_of data (arg_neg_node a) = Some (JObj neg_node)"
    and "map_of neg_node ''class_type'' = Some (JStr ''CLIPTextEncode'')"
    and "node_inputs neg_node = Inr neg_inputs"
  shows "\<exists>data'.
     patch_graph pl fs a positive_text negative_text (JObj data) = (Inr data', []) \<and>
     map fst data' = map fst data \<and>
     (\<forall>node_id. node_id \<noteq> arg_pos_node a \<and> node_id \<noteq> arg_neg_node a \<longrightarrow>
        map_of data' node_id = map_of data node_id) \<and>
     (\<exists>flds' inputs'.
        map_of data' (arg_pos_node a) = Some (JObj flds') \<and>
        (\<forall>f. f \<noteq> ''inputs'' \<longrightarrow> map_of flds' f = map_of pos_node f) \<and>
        map_of flds' ''inputs'' = Some (JObj inputs') \<and>
        (\<forall>k. k \<noteq> ''text'' \<longrightarrow> map_of inputs' k = map_of pos_inputs k) \<and>
        map_of inputs' ''text'' =
          Some (JStr (if arg_pos_node a = arg_neg_node a then negative_text else positive_text))) \<and>
     (\<exists>flds' inputs'.
        map_of data' (arg_neg_node a) = Some (JObj flds') \<and>
        (\<forall>f. f \<noteq> ''inputs'' \<longrightarrow> map_of flds' f = map_of neg_node f) \<and>
        map_of flds' ''inputs'' = Some (JObj inputs') \<and>
        (\<forall>k. k \<noteq> ''text'' \<longrightarrow> map_of inputs' k = map_of neg_inputs k) \<and>
        map_of inputs' ''text'' = Some (JStr negative_text))"
proof -
  let ?p = "arg_pos_node a" and ?n = "arg_neg_node a"
  let ?data' = "dict_set ?n (set_text negative_text neg_inputs neg_node)
                  (dict_set ?p (set_text positive_text pos_inputs pos_node) data)"
  have inj: "inject_text a positive_text negative_text (JObj data) = Inr ?data'"
    using assms(6-11) by (simp add: inject_text_def text_node_ok)
  have run: "patch_graph pl fs a positive_text negative_text (JObj data) = (Inr ?data', [])"
    using inj assms(1-5)
    by (simp add: patch_graph_def lora_step_def clip_step_def controlnet_step_def ipadapter_step_def)
  have pk: "?p \<in> fst ` set data" and nk: "?n \<in> fst ` set data"
    using assms(6,9) by (metis map_of_eq_None_iff option.distinct(1))+
  have keys: "map fst ?data' = map fst data"
    using pk nk by (simp add: map_fst_dict_set keys_dict_set)
  have others: "\<forall>node_id. node_id \<noteq> ?p \<and> node_id \<noteq> ?n \<longrightarrow> map_of ?data' node_id = map_of data node_id"
    by simp
  have pos: "\<exists>flds' inputs'.
        map_of ?data' ?p = Some (JObj flds') \<and>
        (\<forall>f. f \<noteq> ''inputs'' \<longrightarrow> map_of flds' f = map_of pos_node f) \<and>
        map_of flds' ''inputs'' = Some (JObj inputs') \<and>
        (\<forall>k. k \<noteq> ''text'' \<longrightarrow> map_of inputs' k = map_of pos_inputs k) \<and>
        map_of inputs' ''text'' = Some (JStr (if ?p = ?n then negative_text else positive_text))"
  proof (cases "?p = ?n")
    case True
    from assms(6,9) True have pn: "pos_node = neg_node" by simp
    from assms(8,11) have pi: "pos_inputs = neg_inputs" unfolding pn by simp
    have "map_of ?data' ?p = Some (set_text negative_text neg_inputs neg_node)"
      using True by simp
    then show ?thesis
      unfolding pn pi using True by (simp add: set_text_def)
  next
    case False
    then have "map_of ?data' ?p = Some (set_text positive_text pos_inputs pos_node)"
      by simp
    then show ?thesis using False by (simp add: set_text_def)
  qed
  have neg: "\<exists>flds' inputs'.
        map_of ?data' ?n = Some (JObj flds') \<and>
        (\<forall>f. f \<noteq> ''inputs'' \<longrightarrow> map_of flds' f = map_of neg_node f) \<and>
        map_of flds' ''inputs'' = Some (JObj inputs') \<and>
        (\<forall>k. k \<noteq> ''text'' \<longrightarrow> map_of inputs' k = map_of neg_inputs k) \<and>
        map_of inputs' ''text'' = Some (JStr negative_text)"
  proof -
    have "map_of ?data' ?n = Some (set_text negative_text neg_inputs neg_node)" by simp
    then show ?thesis by (simp add: set_text_def)
  qed
  show ?thesis
    by (rule exI[of _ ?data']) (rule conjI run keys others pos neg)+
qed

theorem text_injection_frame_witness:
  "\<exists>data'. patch_graph plain_paths disk base_args ''X'' ''Y'' (JObj base_graph) = (Inr data', []) \<and>
     map fst data' = map fst base_graph \<and>
     (\<forall>node_id. node_id \<noteq> ''6'' \<and> node_id \<noteq> ''7'' \<longrightarrow>
        map_of data' node_id = map_of base_graph node_id)"
proof -
  let ?pos = "[(''class_type'', JStr ''CLIPTextEncode''),
               (''inputs'', JObj [(''text'', JStr []), (''clip'', JList [JStr ''4'', JInt 1])]),
               (''_meta'', JObj [(''title'', JStr ''Positive'')])]"
  let ?neg = "[(''class_type'', JStr ''CLIPTextEncode''),
               (''inputs'', JObj [(''text'', JStr []), (''clip'', JList [JStr ''4'', JInt 1])])]"
  let ?ins = "[(''text'', JStr []), (''clip'', JList [JStr ''4'', JInt 1])]"
  have h: "arg_lora_strength_model base_args = None" "arg_lora_strength_clip base_args = None"
    "arg_clip_layer base_args = None" "\<not> arg_add_controlnet base_args"
    "\<not> arg_add_ipadapter base_args"
    by (simp_all add: base_args_def)
  have p: "map_of base_graph (arg_pos_node base_args) = Some (JObj ?pos)"
    "map_of ?pos ''class_type'' = Some (JStr ''CLIPTextEncode'')"
    "node_inputs ?pos = Inr ?ins"
    by (simp_all add: base_args_def base_graph_def node_inputs_def)
  have n: "map_of base_graph (arg_neg_node base_args) = Some (JObj ?neg)"
    "map_of ?neg ''class_type'' = Some (JStr ''CLIPTextEncode'')"
    "node_inputs ?neg = Inr ?ins"
    by (simp_all add: base_args_def base_graph_def node_inputs_def)
  have ids: "arg_pos_node base_args = ''6''" "arg_neg_node base_args = ''7''"
    by (simp_all add: base_args_def)
  from text_injection_frame[OF h p n, of plain_paths disk "''X''" "''Y''"]
  show ?thesis unfolding ids
    by (elim exE conjE) (rule exI, intro conjI, assumption+)
qed

section \<open>Applying the ControlNet insertion twice\<close>

text \<open>
  The proof follows the run. Each stage leaves the node it writes \<open>settled\<close>: found
  first in its class, holding the inputs the stage assigns. Later stages write nodes of
  other classes or append new ones, so they keep what earlier stages settled and what
  \<open>find_node_id\<close> returns for the other classes. On a graph where every stage is
  settled, each stage of a second run writes back the record that is already there.
\<close>

subsection \<open>Lookup by class and updates in place\<close>

lemma dict_set_new: "k \<notin> fst ` set d \<Longrightarrow> dict_set k v d = d @ [(k, v)]"
  by (induction d) auto

lemma distinct_dict_set: "distinct (map fst d) \<Longrightarrow> distinct (map fst (dict_set k v d))"
  by (simp add: map_fst_dict_set)

lemma is_class_unique: "is_class ct node \<Longrightarrow> is_class ct' node \<Longrightarrow> ct = ct'"
  by (cases node) (simp_all add: is_class_def)

lemma is_class_new_node: "is_class ct' (new_node ct kvs) \<longleftrightarrow> ct' = ct"
  by (auto simp: is_class_def new_node_def)

lemma find_dict_set_same_class:
  "map_of d k = Some node \<Longrightarrow> is_class ct node' = is_class ct node \<Longrightarrow>
     find_node_id ct (dict_set k node' d) = find_node_id ct d"
  by (induction d) (auto split: if_splits)

lemma find_append:
  "find_node_id ct (d @ [(k, v)]) =
     (case find_node_id ct d of Some x \<Rightarrow> Some x | None \<Rightarrow> if is_class ct v then Some k else None)"
  by (induction d) auto

lemma find_Some:
  "find_node_id ct d = Some k \<Longrightarrow> distinct (map fst d) \<Longrightarrow>
     \<exists>node. map_of d k = Some node \<and> is_class ct node"
proof (induction d)
  case Nil
  then show ?case by simp
next
  case (Cons p d)
  obtain k' v where p: "p = (k', v)" by (cases p)
  show ?case
  proof (cases "is_class ct v")
    case True
    with Cons.prems p show ?thesis by simp
  next
    case False
    with Cons.prems p have f: "find_node_id ct d = Some k" by simp
    from Cons.IH[OF f] Cons.prems(2) obtain node where n: "map_of d k = Some node" "is_class ct node"
      by auto
    from n(1) have "k \<in> fst ` set d" by (metis map_of_eq_None_iff option.distinct(1))
    with Cons.prems(2) p have "k \<noteq> k'" by auto
    with n p show ?thesis by simp
  qed
qed

lemma py_int_Nil: "py_int [] = None"
  by (simp add: py_int_def strip_def)

lemma find_key: "find_node_id ct d = Some k \<Longrightarrow> k \<in> fst ` set d"
  by (induction d) (auto split: if_splits)

lemma truthy_find:
  assumes "existing_ids d = Inr ids"
  shows "truthy (find_node_id ct d) = find_node_id ct d"
proof (cases "find_node_id ct d")
  case None
  then show ?thesis by (simp add: truthy_def)
next
  case (Some k)
  from existing_ids_member[OF assms find_key[OF Some]] have "k \<noteq> []"
    using py_int_Nil by auto
  with Some show ?thesis by (simp add: truthy_def)
qed

lemma dict_update_noop:
  "list_all (\<lambda>kv. map_of inputs (fst kv) = Some (snd kv)) kvs \<Longrightarrow> dict_update kvs inputs = inputs"
  unfolding dict_update_def
  by (induction kvs) (simp_all add: dict_set_same)

lemma settledI:
  "map_of d k = Some (JObj flds) \<Longrightarrow> map_of flds ''class_type'' = Some (JStr ct) \<Longrightarrow>
   map_of flds ''inputs'' = Some (JObj inputs) \<Longrightarrow>
   list_all (\<lambda>kv. map_of inputs (fst kv) = Some (snd kv)) kvs \<Longrightarrow> settled d k ct kvs"
  by (simp add: settled_def)

lemma settledD:
  assumes "settled d k ct kvs"
  shows "\<exists>flds inputs. map_of d k = Some (JObj flds) \<and>
           map_of flds ''class_type'' = Some (JStr ct) \<and>
           map_of flds ''inputs'' = Some (JObj inputs) \<and>
           list_all (\<lambda>kv. map_of inputs (fst kv) = Some (snd kv)) kvs"
proof (cases "map_of d k")
  case None
  with assms show ?thesis by (simp add: settled_def)
next
  case (Some node)
  show ?thesis
  proof (cases node)
    case (JObj flds)
    show ?thesis
    proof (cases "map_of flds ''inputs''")
      case None
      with assms Some JObj show ?thesis by (simp add: settled_def)
    next
      case i: (Some x)
      show ?thesis
      proof (cases x)
        case j: (JObj inputs)
        with assms Some JObj i show ?thesis by (simp add: settled_def)
      qed (use assms Some JObj i in \<open>simp_all add: settled_def\<close>)
    qed
  qed (use assms Some in \<open>simp_all add: settled_def\<close>)
qed

lemma settled_noop:
  assumes "settled d k ct kvs"
  shows "update_node k kvs d = Inr d"
proof -
  from settledD[OF assms] obtain flds inputs where
    h: "map_of d k = Some (JObj flds)" "map_of flds ''inputs'' = Some (JObj inputs)"
       "list_all (\<lambda>kv. map_of inputs (fst kv) = Some (snd kv)) kvs"
    by blast
  have "node_inputs flds = Inr inputs" using h(2) by (simp add: node_inputs_def)
  then show ?thesis using h
    by (simp add: update_node_def merge_inputs_def dict_update_noop dict_set_same)
qed

lemma settled_class:
  assumes "settled d k ct kvs"
  shows "\<exists>node. map_of d k = Some node \<and> is_class ct node"
proof -
  from settledD[OF assms] obtain flds where
    "map_of d k = Some (JObj flds)" "map_of flds ''class_type'' = Some (JStr ct)"
    by blast
  then show ?thesis by (simp add: is_class_def)
qed

lemma is_class_JObj: "is_class ct node \<Longrightarrow> \<exists>flds. node = JObj flds \<and> map_of flds ''class_type'' = Some (JStr ct)"
  by (cases node) (simp_all add: is_class_def)

lemma settled_other_key:
  "map_of d' k' = map_of d k' \<Longrightarrow> settled d' k' ct' kvs' = settled d k' ct' kvs'"
  by (simp add: settled_def)

lemma list_all_dict_update:
  "distinct (map fst kvs) \<Longrightarrow>
     list_all (\<lambda>kv. map_of (dict_update kvs inputs) (fst kv) = Some (snd kv)) kvs"
  unfolding list_all_iff
proof
  fix kv assume d: "distinct (map fst kvs)" and kv: "kv \<in> set kvs"
  from kv have "(fst kv, snd kv) \<in> set kvs" by simp
  from map_of_dict_update_named[OF d this]
  show "map_of (dict_update kvs inputs) (fst kv) = Some (snd kv)" .
qed

lemma list_all_new_inputs:
  "distinct (map fst kvs) \<Longrightarrow> list_all (\<lambda>kv. map_of kvs (fst kv) = Some (snd kv)) kvs"
  by (simp add: list_all_iff)

lemma update_node_props:
  assumes "map_of d k = Some node" and "is_class ct node"
    and "update_node k kvs d = Inr d'" and "distinct (map fst kvs)"
  shows "find_node_id ct' d' = find_node_id ct' d"
    and "settled d' k ct kvs"
    and "k' \<noteq> k \<Longrightarrow> settled d' k' ct' kvs' = settled d k' ct' kvs'"
    and "existing_ids d' = existing_ids d"
    and "map fst d' = map fst d"
proof -
  from is_class_JObj[OF assms(2)] obtain flds where
    n: "node = JObj flds" "map_of flds ''class_type'' = Some (JStr ct)" by blast
  from assms(1,3) n obtain inputs where
    i: "node_inputs flds = Inr inputs"
    and d': "d' = dict_set k (JObj (dict_set ''inputs'' (JObj (dict_update kvs inputs)) flds)) d"
    by (auto simp: update_node_def merge_inputs_def split: sum.splits)
  let ?flds' = "dict_set ''inputs'' (JObj (dict_update kvs inputs)) flds"
  have k: "k \<in> fst ` set d" using assms(1) by (metis map_of_eq_None_iff option.distinct(1))
  have "is_class ct' (JObj ?flds') = is_class ct' node"
    unfolding n by (simp add: is_class_def)
  from find_dict_set_same_class[OF assms(1) this]
  show "find_node_id ct' d' = find_node_id ct' d" unfolding d' .
  show "settled d' k ct kvs"
  proof (rule settledI)
    show "map_of d' k = Some (JObj ?flds')" unfolding d' by simp
    show "map_of ?flds' ''class_type'' = Some (JStr ct)" using n(2) by simp
    show "map_of ?flds' ''inputs'' = Some (JObj (dict_update kvs inputs))" by simp
    show "list_all (\<lambda>kv. map_of (dict_update kvs inputs) (fst kv) = Some (snd kv)) kvs"
      by (rule list_all_dict_update[OF assms(4)])
  qed
  show "k' \<noteq> k \<Longrightarrow> settled d' k' ct' kvs' = settled d k' ct' kvs'"
    unfolding d' by (rule settled_other_key) simp
  show "existing_ids d' = existing_ids d"
    unfolding d' by (rule existing_ids_dict_set_old[OF k])
  show "map fst d' = map fst d" unfolding d' using k by (simp add: map_fst_dict_set)
qed

lemma new_node_props:
  assumes "existing_ids d = Inr ids" and "next_id ids = (k, ids')"
    and "distinct (map fst kvs)"
  shows "ct' \<noteq> ct \<Longrightarrow>
           find_node_id ct' (dict_set k (new_node ct kvs) d) = find_node_id ct' d"
    and "find_node_id ct d = None \<Longrightarrow>
           find_node_id ct (dict_set k (new_node ct kvs) d) = Some k"
    and "settled (dict_set k (new_node ct kvs) d) k ct kvs"
    and "settled d k' ct' kvs' \<Longrightarrow> settled (dict_set k (new_node ct kvs) d) k' ct' kvs'"
    and "existing_ids (dict_set k (new_node ct kvs) d) = Inr ids'"
    and "distinct (map fst d) \<Longrightarrow> distinct (map fst (dict_set k (new_node ct kvs) d))"
proof -
  have fresh: "k \<notin> fst ` set d" using next_id_fresh[OF assms(1)] assms(2) by simp
  have app: "dict_set k (new_node ct kvs) d = d @ [(k, new_node ct kvs)]"
    by (rule dict_set_new[OF fresh])
  show "ct' \<noteq> ct \<Longrightarrow> find_node_id ct' (dict_set k (new_node ct kvs) d) = find_node_id ct' d"
    unfolding app by (simp add: find_append is_class_new_node split: option.splits)
  show "find_node_id ct d = None \<Longrightarrow>
           find_node_id ct (dict_set k (new_node ct kvs) d) = Some k"
    unfolding app by (simp add: find_append is_class_new_node)
  show "settled (dict_set k (new_node ct kvs) d) k ct kvs"
    by (rule settledI[where flds = "[(''class_type'', JStr ct), (''inputs'', JObj kvs)]"
          and inputs = kvs])
       (simp_all add: new_node_def list_all_new_inputs[OF assms(3)])
  show "settled d k' ct' kvs' \<Longrightarrow> settled (dict_set k (new_node ct kvs) d) k' ct' kvs'"
  proof -
    assume s: "settled d k' ct' kvs'"
    from settledD[OF s] have "k' \<in> fst ` set d"
      by (metis map_of_eq_None_iff option.distinct(1))
    with fresh have "k' \<noteq> k" by auto
    then have "map_of (dict_set k (new_node ct kvs) d) k' = map_of d k'" by simp
    from settled_other_key[OF this] s show ?thesis by simp
  qed
  show "existing_ids (dict_set k (new_node ct kvs) d) = Inr ids'"
    by (rule existing_ids_dict_set_new[OF assms(1,2)])
  show "distinct (map fst d) \<Longrightarrow> distinct (map fst (dict_set k (new_node ct kvs) d))"
    by (rule distinct_dict_set)
qed

lemma update_found:
  assumes "distinct (map fst d)" and "find_node_id ct d = Some k"
    and "update_node k kvs d = Inr d'" and "distinct (map fst kvs)"
  shows "find_node_id ct' d' = find_node_id ct' d"
    and "settled d' k ct kvs"
    and "ct' \<noteq> ct \<Longrightarrow> settled d k' ct' kvs' \<Longrightarrow> settled d' k' ct' kvs'"
    and "existing_ids d' = existing_ids d"
    and "distinct (map fst d')"
proof -
  from find_Some[OF assms(2,1)] obtain node where
    n: "map_of d k = Some node" "is_class ct node" by blast
  note p = update_node_props[OF n assms(3,4)]
  show "find_node_id ct' d' = find_node_id ct' d" by (rule p(1))
  show "settled d' k ct kvs" by (rule p(2))
  show "existing_ids d' = existing_ids d" by (rule p(4))
  show "distinct (map fst d')" using assms(1) by (simp add: p(5))
  show "ct' \<noteq> ct \<Longrightarrow> settled d k' ct' kvs' \<Longrightarrow> settled d' k' ct' kvs'"
  proof -
    assume ne: "ct' \<noteq> ct" and s: "settled d k' ct' kvs'"
    from settled_class[OF s] obtain node' where
      n': "map_of d k' = Some node'" "is_class ct' node'" by blast
    have "k' \<noteq> k"
    proof
      assume "k' = k"
      with n n' have "is_class ct node'" by simp
      from is_class_unique[OF this n'(2)] ne show False by simp
    qed
    from p(3)[OF this] s show ?thesis by simp
  qed
qed

lemma upsert_step:
  assumes "existing_ids d = Inr ids" and "distinct (map fst d)"
    and "upsert (find_node_id ct d) ct kvs ids d = Inr (k, ids', d')"
    and "distinct (map fst kvs)"
  shows "existing_ids d' = Inr ids' \<and> distinct (map fst d') \<and> find_node_id ct d' = Some k \<and>
      settled d' k ct kvs \<and>
      (\<forall>ct'. ct' \<noteq> ct \<longrightarrow> find_node_id ct' d' = find_node_id ct' d) \<and>
      (\<forall>ct' k' kvs'. ct' \<noteq> ct \<longrightarrow> settled d k' ct' kvs' \<longrightarrow> settled d' k' ct' kvs')"
proof -
  have tf: "truthy (find_node_id ct d) = find_node_id ct d" by (rule truthy_find[OF assms(1)])
  show ?thesis
  proof (cases "find_node_id ct d")
    case None
    with assms(3) tf have n: "next_id ids = (k, ids')" and d': "d' = dict_set k (new_node ct kvs) d"
      by (auto simp: upsert_def split: prod.splits)
    note p = new_node_props[OF assms(1) n assms(4)]
    have f1: "existing_ids d' = Inr ids'" unfolding d' by (rule p(5))
    have f2: "distinct (map fst d')" unfolding d' by (rule p(6)[OF assms(2)])
    have f3: "find_node_id ct d' = Some k" unfolding d' by (rule p(2)[OF None])
    have f4: "settled d' k ct kvs" unfolding d' by (rule p(3))
    have f5: "\<forall>ct'. ct' \<noteq> ct \<longrightarrow> find_node_id ct' d' = find_node_id ct' d"
      unfolding d' using p(1) by blast
    have f6: "\<forall>ct' k' kvs'. ct' \<noteq> ct \<longrightarrow> settled d k' ct' kvs' \<longrightarrow> settled d' k' ct' kvs'"
      unfolding d' using p(4) by blast
    from f1 f2 f3 f4 f5 f6 show ?thesis by (intro conjI)
  next
    case (Some k0)
    with assms(3) tf have k: "k = k0" "ids' = ids" and u: "update_node k0 kvs d = Inr d'"
      by (auto simp: upsert_def split: sum.splits)
    note p = update_found[OF assms(2) Some u assms(4)]
    have f1: "existing_ids d' = Inr ids'" unfolding k using p(4) assms(1) by simp
    have f2: "distinct (map fst d')" by (rule p(5))
    have f3: "find_node_id ct d' = Some k" unfolding k using p(1)[of ct] Some by simp
    have f4: "settled d' k ct kvs" unfolding k by (rule p(2))
    have f5: "\<forall>ct'. ct' \<noteq> ct \<longrightarrow> find_node_id ct' d' = find_node_id ct' d"
      using p(1) by blast
    have f6: "\<forall>ct' k' kvs'. ct' \<noteq> ct \<longrightarrow> settled d k' ct' kvs' \<longrightarrow> settled d' k' ct' kvs'"
      using p(3) by blast
    from f1 f2 f3 f4 f5 f6 show ?thesis by (intro conjI)
  qed
qed

lemma upsert_settled:
  assumes "existing_ids d = Inr ids" and "find_node_id ct d = Some k" and "settled d k ct kvs"
  shows "upsert (find_node_id ct d) ct kvs ids d = Inr (k, ids, d)"
  using truthy_find[OF assms(1), of ct] assms(2) settled_noop[OF assms(3)]
  by (simp add: upsert_def)

subsection \<open>The ControlNet branch, first and second application\<close>

lemma controlnet_wire_InrD:
  assumes "controlnet_wire a dest image_found apply_found cid ids d = Inr d4"
  shows "\<exists>iid ids2 d2 aid ids3 d3 sid.
     upsert image_found ''LoadImage'' [(''image'', JStr dest)] ids d = Inr (iid, ids2, d2) \<and>
     upsert apply_found ''ControlNetApplyAdvanced'' (apply_inputs a cid iid) ids2 d2
       = Inr (aid, ids3, d3) \<and>
     truthy (find_node_id ''KSampler'' d3) = Some sid \<and>
     update_node sid [(''positive'', ref aid 0), (''negative'', ref aid 1)] d3 = Inr d4"
proof (cases "upsert image_found ''LoadImage'' [(''image'', JStr dest)] ids d")
  case (Inl e)
  with assms show ?thesis by (simp add: controlnet_wire_def)
next
  case (Inr r)
  obtain iid ids2 d2 where r: "r = (iid, ids2, d2)" by (cases r)
  show ?thesis
  proof (cases "upsert apply_found ''ControlNetApplyAdvanced'' (apply_inputs a cid iid) ids2 d2")
    case (Inl e)
    with assms Inr r show ?thesis by (simp add: controlnet_wire_def)
  next
    case u2: (Inr r2)
    obtain aid ids3 d3 where r2: "r2 = (aid, ids3, d3)" by (cases r2)
    show ?thesis
    proof (cases "truthy (find_node_id ''KSampler'' d3)")
      case None
      with assms Inr r u2 r2 show ?thesis by (simp add: controlnet_wire_def)
    next
      case (Some sid)
      with assms Inr r u2 r2 show ?thesis by (simp add: controlnet_wire_def)
    qed
  qed
qed

lemma controlnet_step_InrD:
  assumes "controlnet_step pl fs a data tr = (Inr data1, tr1)" and "arg_add_controlnet a"
  shows "\<exists>controlnet control_image ids cid ids1 d1 dest_path.
     truthy (arg_controlnet a) = Some controlnet \<and>
     truthy (arg_control_image a) = Some control_image \<and>
     existing_ids data = Inr ids \<and>
     upsert (find_node_id ''ControlNetLoader'' data) ''ControlNetLoader''
       [(''control_net_name'', JStr controlnet)] ids data = Inr (cid, ids1, d1) \<and>
     stage_image pl fs (arg_workflow a) control_image ''Control image not found: '' tr
       = (Inr (expanduser pl control_image, dest_path), tr1) \<and>
     controlnet_wire a (name_of pl (expanduser pl control_image))
       (find_node_id ''LoadImage'' data) (find_node_id ''ControlNetApplyAdvanced'' data)
       cid ids1 d1 = Inr data1"
proof (cases "truthy (arg_controlnet a)")
  case None
  with assms show ?thesis by (simp add: controlnet_step_def)
next
  case cn: (Some controlnet)
  show ?thesis
  proof (cases "truthy (arg_control_image a)")
    case None
    with assms cn show ?thesis by (simp add: controlnet_step_def)
  next
    case im: (Some control_image)
    show ?thesis
    proof (cases "existing_ids data")
      case (Inl e)
      with assms cn im show ?thesis by (simp add: controlnet_step_def)
    next
      case ids: (Inr ids)
      show ?thesis
      proof (cases "upsert (find_node_id ''ControlNetLoader'' data) ''ControlNetLoader''
                      [(''control_net_name'', JStr controlnet)] ids data")
        case (Inl e)
        with assms cn im ids show ?thesis by (simp add: controlnet_step_def)
      next
        case u: (Inr r)
        obtain cid ids1 d1 where r: "r = (cid, ids1, d1)" by (cases r)
        obtain sr tr' where st: "stage_image pl fs (arg_workflow a) control_image
            ''Control image not found: '' tr = (sr, tr')"
          by (cases "stage_image pl fs (arg_workflow a) control_image ''Control image not found: '' tr")
        show ?thesis
        proof (cases sr)
          case (Inl e)
          with assms cn im ids u r st show ?thesis by (simp add: controlnet_step_def)
        next
          case (Inr sd)
          obtain src dst where sd: "sd = (src, dst)" by (cases sd)
          from st Inr sd have src: "src = expanduser pl control_image"
            by (auto simp: stage_image_def Let_def split: if_splits)
          from assms cn im ids u r st Inr sd src show ?thesis
            by (simp add: controlnet_step_def)
        qed
      qed
    qed
  qed
qed

lemma controlnet_first:
  assumes "controlnet_step pl fs a data tr = (Inr data1, tr1)" and "arg_add_controlnet a"
    and "distinct (map fst data)"
  shows "\<exists>cid iid aid sid ids'. existing_ids data1 = Inr ids' \<and>
           controlnet_settled pl a data1 cid iid aid sid \<and>
           (\<forall>ct' k' kvs'.
              ct' \<notin> {''ControlNetLoader'', ''LoadImage'', ''ControlNetApplyAdvanced'', ''KSampler''} \<longrightarrow>
              find_node_id ct' data1 = find_node_id ct' data \<and>
              (settled data k' ct' kvs' \<longrightarrow> settled data1 k' ct' kvs'))"
proof -
  let ?CNL = "''ControlNetLoader''" and ?LI = "''LoadImage''"
  let ?CNA = "''ControlNetApplyAdvanced''" and ?KS = "''KSampler''"
  from controlnet_step_InrD[OF assms(1,2)] obtain cn img ids cid ids1 d1 dst where
    cn: "truthy (arg_controlnet a) = Some cn" and img: "truthy (arg_control_image a) = Some img"
    and e0: "existing_ids data = Inr ids"
    and u1: "upsert (find_node_id ?CNL data) ?CNL [(''control_net_name'', JStr cn)] ids data
              = Inr (cid, ids1, d1)"
    and w: "controlnet_wire a (name_of pl (expanduser pl img))
       (find_node_id ?LI data) (find_node_id ?CNA data) cid ids1 d1 = Inr data1"
    by blast
  let ?kv1 = "[(''control_net_name'', JStr cn)]"
  let ?kv2 = "[(''image'', JStr (name_of pl (expanduser pl img)))]"
  from controlnet_wire_InrD[OF w] obtain iid ids2 d2 aid ids3 d3 sid where
    u2: "upsert (find_node_id ?LI data) ?LI ?kv2 ids1 d1 = Inr (iid, ids2, d2)"
    and u3: "upsert (find_node_id ?CNA data) ?CNA (apply_inputs a cid iid) ids2 d2
              = Inr (aid, ids3, d3)"
    and ts: "truthy (find_node_id ?KS d3) = Some sid"
    and u4: "update_node sid [(''positive'', ref aid 0), (''negative'', ref aid 1)] d3 = Inr data1"
    by blast
  let ?kv3 = "apply_inputs a cid iid"
  let ?kv4 = "[(''positive'', ref aid 0), (''negative'', ref aid 1)]"
  have dk: "distinct (map fst ?kv1)" "distinct (map fst ?kv2)" "distinct (map fst ?kv3)"
    "distinct (map fst ?kv4)"
    by (simp_all add: apply_inputs_def)
  note s1 = upsert_step[OF e0 assms(3) u1 dk(1)]
  from s1 have e1: "existing_ids d1 = Inr ids1" and dd1: "distinct (map fst d1)"
    and f1: "find_node_id ?CNL d1 = Some cid" and st1: "settled d1 cid ?CNL ?kv1"
    and p1: "\<forall>ct'. ct' \<noteq> ?CNL \<longrightarrow> find_node_id ct' d1 = find_node_id ct' data"
    and q1: "\<forall>ct' k' kvs'. ct' \<noteq> ?CNL \<longrightarrow> settled data k' ct' kvs' \<longrightarrow> settled d1 k' ct' kvs'"
    by blast+
  from p1 have fl: "find_node_id ?LI data = find_node_id ?LI d1"
    and fa: "find_node_id ?CNA data = find_node_id ?CNA d1" by simp_all
  note s2 = upsert_step[OF e1 dd1 u2[unfolded fl] dk(2)]
  from s2 have e2: "existing_ids d2 = Inr ids2" and dd2: "distinct (map fst d2)"
    and f2: "find_node_id ?LI d2 = Some iid" and st2: "settled d2 iid ?LI ?kv2"
    and p2: "\<forall>ct'. ct' \<noteq> ?LI \<longrightarrow> find_node_id ct' d2 = find_node_id ct' d1"
    and q2: "\<forall>ct' k' kvs'. ct' \<noteq> ?LI \<longrightarrow> settled d1 k' ct' kvs' \<longrightarrow> settled d2 k' ct' kvs'"
    by blast+
  from p2 have fa2: "find_node_id ?CNA d1 = find_node_id ?CNA d2" by simp
  from p2 f1 have f1': "find_node_id ?CNL d2 = Some cid" by simp
  from q2 st1 have st1': "settled d2 cid ?CNL ?kv1" by simp
  note s3 = upsert_step[OF e2 dd2 u3[unfolded fa fa2] dk(3)]
  from s3 have e3: "existing_ids d3 = Inr ids3" and dd3: "distinct (map fst d3)"
    and f3: "find_node_id ?CNA d3 = Some aid" and st3: "settled d3 aid ?CNA ?kv3"
    and p3: "\<forall>ct'. ct' \<noteq> ?CNA \<longrightarrow> find_node_id ct' d3 = find_node_id ct' d2"
    and q3: "\<forall>ct' k' kvs'. ct' \<noteq> ?CNA \<longrightarrow> settled d2 k' ct' kvs' \<longrightarrow> settled d3 k' ct' kvs'"
    by blast+
  from p3 f1' have f1'': "find_node_id ?CNL d3 = Some cid" by simp
  from p3 f2 have f2'': "find_node_id ?LI d3 = Some iid" by simp
  from q3 st1' have st1'': "settled d3 cid ?CNL ?kv1" by simp
  from q3 st2 have st2'': "settled d3 iid ?LI ?kv2" by simp
  from ts truthy_find[OF e3, of ?KS] have fs: "find_node_id ?KS d3 = Some sid" by simp
  note s4 = update_found[OF dd3 fs u4 dk(4)]
  have g1: "find_node_id ?CNL data1 = Some cid" using s4(1)[of ?CNL] f1'' by simp
  have g2: "find_node_id ?LI data1 = Some iid" using s4(1)[of ?LI] f2'' by simp
  have g3: "find_node_id ?CNA data1 = Some aid" using s4(1)[of ?CNA] f3 by simp
  have g4: "find_node_id ?KS data1 = Some sid" using s4(1)[of ?KS] fs by simp
  have h1: "settled data1 cid ?CNL ?kv1" by (rule s4(3)[OF _ st1'']) simp
  have h2: "settled data1 iid ?LI ?kv2" by (rule s4(3)[OF _ st2'']) simp
  have h3: "settled data1 aid ?CNA ?kv3" by (rule s4(3)[OF _ st3]) simp
  have h4: "settled data1 sid ?KS ?kv4" by (rule s4(2))
  have e4: "existing_ids data1 = Inr ids3" using s4(4) e3 by simp
  have cs: "controlnet_settled pl a data1 cid iid aid sid"
    using cn img g1 g2 g3 g4 h1 h2 h3 h4 by (simp add: controlnet_settled_def)
  have others: "\<forall>ct' k' kvs'.
      ct' \<notin> {?CNL, ?LI, ?CNA, ?KS} \<longrightarrow>
      find_node_id ct' data1 = find_node_id ct' data \<and>
      (settled data k' ct' kvs' \<longrightarrow> settled data1 k' ct' kvs')"
  proof (intro allI impI conjI)
    fix ct' k' kvs'
    assume n: "ct' \<notin> {?CNL, ?LI, ?CNA, ?KS}"
    then have ne: "ct' \<noteq> ?CNL" "ct' \<noteq> ?LI" "ct' \<noteq> ?CNA" "ct' \<noteq> ?KS" by auto
    have "find_node_id ct' data1 = find_node_id ct' d3" by (rule s4(1))
    also have "\<dots> = find_node_id ct' d2" using p3 ne(3) by blast
    also have "\<dots> = find_node_id ct' d1" using p2 ne(2) by blast
    also have "\<dots> = find_node_id ct' data" using p1 ne(1) by blast
    finally show "find_node_id ct' data1 = find_node_id ct' data" .
    assume s: "settled data k' ct' kvs'"
    from q1 ne(1) s have "settled d1 k' ct' kvs'" by blast
    with q2 ne(2) have "settled d2 k' ct' kvs'" by blast
    with q3 ne(3) have "settled d3 k' ct' kvs'" by blast
    from s4(3)[OF ne(4) this] show "settled data1 k' ct' kvs'" .
  qed
  from e4 cs others show ?thesis by (intro exI conjI)
qed

lemma controlnet_second:
  assumes "existing_ids d = Inr ids" and "controlnet_settled pl a d cid iid aid sid"
    and "arg_add_controlnet a"
    and "truthy (arg_control_image a) = Some control_image"
    and "path_exists fs (tr @ [Mkdir (input_dir pl (arg_workflow a))]) (expanduser pl control_image)"
  shows "fst (controlnet_step pl fs a d tr) = Inr d"
proof -
  let ?CNL = "''ControlNetLoader''" and ?LI = "''LoadImage''"
  let ?CNA = "''ControlNetApplyAdvanced''" and ?KS = "''KSampler''"
  from assms(2,4) obtain cn where cn: "truthy (arg_controlnet a) = Some cn"
    by (cases "truthy (arg_controlnet a)") (simp_all add: controlnet_settled_def)
  let ?kv1 = "[(''control_net_name'', JStr cn)]"
  let ?kv2 = "[(''image'', JStr (name_of pl (expanduser pl control_image)))]"
  let ?kv4 = "[(''positive'', ref aid 0), (''negative'', ref aid 1)]"
  from assms(2) cn assms(4) have
    g: "find_node_id ?CNL d = Some cid" "find_node_id ?LI d = Some iid"
       "find_node_id ?CNA d = Some aid" "find_node_id ?KS d = Some sid"
    and h: "settled d cid ?CNL ?kv1" "settled d iid ?LI ?kv2"
       "settled d aid ?CNA (apply_inputs a cid iid)" "settled d sid ?KS ?kv4"
    by (simp_all add: controlnet_settled_def)
  have u1: "upsert (find_node_id ?CNL d) ?CNL ?kv1 ids d = Inr (cid, ids, d)"
    by (rule upsert_settled[OF assms(1) g(1) h(1)])
  have u2: "upsert (find_node_id ?LI d) ?LI ?kv2 ids d = Inr (iid, ids, d)"
    by (rule upsert_settled[OF assms(1) g(2) h(2)])
  have u3: "upsert (find_node_id ?CNA d) ?CNA (apply_inputs a cid iid) ids d = Inr (aid, ids, d)"
    by (rule upsert_settled[OF assms(1) g(3) h(3)])
  have ts: "truthy (find_node_id ?KS d) = Some sid"
    using truthy_find[OF assms(1), of ?KS] g(4) by simp
  have u4: "update_node sid ?kv4 d = Inr d" by (rule settled_noop[OF h(4)])
  have w: "controlnet_wire a (name_of pl (expanduser pl control_image))
       (find_node_id ?LI d) (find_node_id ?CNA d) cid ids d = Inr d"
    using u2 u3 ts u4 by (simp add: controlnet_wire_def)
  obtain tr' where st: "stage_image pl fs (arg_workflow a) control_image
       ''Control image not found: '' tr
       = (Inr (expanduser pl control_image,
               joinpath pl (input_dir pl (arg_workflow a)) (name_of pl (expanduser pl control_image))),
          tr')"
    using assms(5) by (simp add: stage_image_def Let_def)
  show ?thesis
    using assms(1,3,4) cn u1 st w by (simp add: controlnet_step_def)
qed

subsection \<open>Text injection and the overrides\<close>

lemma truthy_SomeD: "truthy x = Some k \<Longrightarrow> x = Some k \<and> k \<noteq> []"
  by (cases x) (auto simp: truthy_def split: if_splits)

lemma truthy_Some: "k \<noteq> [] \<Longrightarrow> truthy (Some k) = Some k"
  by (simp add: truthy_def)

lemma dict_set_twice: "dict_set k v (dict_set k v' d) = dict_set k v d"
  by (induction d) auto

lemma set_text_settled:
  assumes "map_of flds ''inputs'' = Some (JObj inputs)" and "map_of inputs ''text'' = Some (JStr text)"
  shows "set_text text inputs flds = JObj flds"
  using assms by (simp add: set_text_def dict_set_same)

lemma inject_settled:
  assumes "settled d (arg_neg_node a) ''CLIPTextEncode'' [(''text'', JStr negative_text)]"
    and "arg_pos_node a \<noteq> arg_neg_node a \<Longrightarrow>
           settled d (arg_pos_node a) ''CLIPTextEncode'' [(''text'', JStr positive_text)]"
  shows "inject_text a positive_text negative_text (JObj d) = Inr d"
proof -
  let ?p = "arg_pos_node a" and ?n = "arg_neg_node a"
  from settledD[OF assms(1)] obtain nf nin where
    n: "map_of d ?n = Some (JObj nf)" "map_of nf ''class_type'' = Some (JStr ''CLIPTextEncode'')"
       "map_of nf ''inputs'' = Some (JObj nin)" "map_of nin ''text'' = Some (JStr negative_text)"
    by auto
  have tn: "text_node d ?n = Inr nf" using n(1,2) by (simp add: text_node_def)
  have ni: "node_inputs nf = Inr nin" using n(3) by (simp add: node_inputs_def)
  have sn: "set_text negative_text nin nf = JObj nf" by (rule set_text_settled[OF n(3,4)])
  show ?thesis
  proof (cases "?p = ?n")
    case True
    have "dict_set ?n (JObj nf) (dict_set ?n (set_text positive_text nin nf) d) = d"
      using n(1) by (simp add: dict_set_twice dict_set_same)
    then show ?thesis using True tn ni sn by (simp add: inject_text_def)
  next
    case False
    from settledD[OF assms(2)[OF False]] obtain pf pin where
      p: "map_of d ?p = Some (JObj pf)" "map_of pf ''class_type'' = Some (JStr ''CLIPTextEncode'')"
         "map_of pf ''inputs'' = Some (JObj pin)" "map_of pin ''text'' = Some (JStr positive_text)"
      by auto
    have tp: "text_node d ?p = Inr pf" using p(1,2) by (simp add: text_node_def)
    have pi: "node_inputs pf = Inr pin" using p(3) by (simp add: node_inputs_def)
    have sp: "set_text positive_text pin pf = JObj pf" by (rule set_text_settled[OF p(3,4)])
    have "dict_set ?n (JObj nf) (dict_set ?p (JObj pf) d) = d"
      using n(1) p(1) by (simp add: dict_set_same)
    then show ?thesis using tn ni sn tp pi sp by (simp add: inject_text_def)
  qed
qed

lemma text_node_InrD:
  assumes "text_node d k = Inr flds"
  shows "map_of d k = Some (JObj flds) \<and> map_of flds ''class_type'' = Some (JStr ''CLIPTextEncode'')"
proof (cases "map_of d k")
  case None
  with assms show ?thesis by (simp add: text_node_def)
next
  case (Some node)
  with assms show ?thesis
    by (cases node) (simp_all add: text_node_def split: if_splits)
qed

lemma is_class_set_text: "is_class ct (set_text text inputs flds) = is_class ct (JObj flds)"
  by (simp add: is_class_def set_text_def)

lemma settled_set_text:
  assumes "map_of d k = Some (set_text text inputs flds)"
    and "map_of flds ''class_type'' = Some (JStr ct)"
  shows "settled d k ct [(''text'', JStr text)]"
  by (rule settledI[where flds = "dict_set ''inputs'' (JObj (dict_set ''text'' (JStr text) inputs)) flds"
        and inputs = "dict_set ''text'' (JStr text) inputs"])
     (use assms in \<open>simp_all add: set_text_def\<close>)

lemma inject_first:
  assumes "inject_text a positive_text negative_text (JObj data) = Inr d0"
  shows "find_node_id ct d0 = find_node_id ct data"
    and "distinct (map fst data) \<Longrightarrow> distinct (map fst d0)"
    and "settled d0 (arg_neg_node a) ''CLIPTextEncode'' [(''text'', JStr negative_text)]"
    and "arg_pos_node a \<noteq> arg_neg_node a \<Longrightarrow>
           settled d0 (arg_pos_node a) ''CLIPTextEncode'' [(''text'', JStr positive_text)]"
proof -
  let ?p = "arg_pos_node a" and ?n = "arg_neg_node a"
  obtain pf where tp: "text_node data ?p = Inr pf"
    using assms by (cases "text_node data ?p") (simp_all add: inject_text_def)
  obtain nf where tn: "text_node data ?n = Inr nf"
    using assms tp by (cases "text_node data ?n") (simp_all add: inject_text_def)
  obtain pin where pi: "node_inputs pf = Inr pin"
    using assms tp tn by (cases "node_inputs pf") (simp_all add: inject_text_def)
  obtain nin where ni: "node_inputs nf = Inr nin"
    using assms tp tn pi by (cases "node_inputs nf") (simp_all add: inject_text_def)
  let ?P = "set_text positive_text pin pf" and ?N = "set_text negative_text nin nf"
  have d0: "d0 = dict_set ?n ?N (dict_set ?p ?P data)"
    using assms tp tn pi ni by (simp add: inject_text_def)
  note p = text_node_InrD[OF tp] and n = text_node_InrD[OF tn]
  have f1: "find_node_id ct (dict_set ?p ?P data) = find_node_id ct data"
    by (rule find_dict_set_same_class[where node = "JObj pf"])
       (use p in \<open>simp_all add: is_class_set_text\<close>)
  have f2: "find_node_id ct d0 = find_node_id ct (dict_set ?p ?P data)"
    unfolding d0
  proof (cases "?n = ?p")
    case True
    with p n have "pf = nf" by simp
    show "find_node_id ct (dict_set ?n ?N (dict_set ?p ?P data)) =
          find_node_id ct (dict_set ?p ?P data)"
      by (rule find_dict_set_same_class[where node = ?P])
         (use True \<open>pf = nf\<close> in \<open>simp_all add: is_class_set_text\<close>)
  next
    case False
    show "find_node_id ct (dict_set ?n ?N (dict_set ?p ?P data)) =
          find_node_id ct (dict_set ?p ?P data)"
      by (rule find_dict_set_same_class[where node = "JObj nf"])
         (use False n in \<open>simp_all add: is_class_set_text\<close>)
  qed
  from f1 f2 show "find_node_id ct d0 = find_node_id ct data" by simp
  show "distinct (map fst data) \<Longrightarrow> distinct (map fst d0)"
    unfolding d0 by (simp add: distinct_dict_set)
  show "settled d0 ?n ''CLIPTextEncode'' [(''text'', JStr negative_text)]"
    by (rule settled_set_text[where inputs = nin and flds = nf]) (use n in \<open>simp_all add: d0\<close>)
  show "?p \<noteq> ?n \<Longrightarrow> settled d0 ?p ''CLIPTextEncode'' [(''text'', JStr positive_text)]"
    by (rule settled_set_text[where inputs = pin and flds = pf]) (use p in \<open>simp_all add: d0\<close>)
qed

lemma find_update_first:
  assumes "truthy (find_node_id ct d) = Some k" and "update_node k kvs d = Inr d'"
    and "distinct (map fst d)" and "distinct (map fst kvs)"
  shows "distinct (map fst d')"
    and "find_node_id ct' d' = find_node_id ct' d"
    and "settled d' k ct kvs"
    and "ct' \<noteq> ct \<Longrightarrow> settled d k' ct' kvs' \<Longrightarrow> settled d' k' ct' kvs'"
proof -
  from truthy_SomeD[OF assms(1)] have f: "find_node_id ct d = Some k" by simp
  note p = update_found[OF assms(3) f assms(2,4)]
  show "distinct (map fst d')" by (rule p(5))
  show "find_node_id ct' d' = find_node_id ct' d" by (rule p(1))
  show "settled d' k ct kvs" by (rule p(2))
  show "ct' \<noteq> ct \<Longrightarrow> settled d k' ct' kvs' \<Longrightarrow> settled d' k' ct' kvs'" by (rule p(3))
qed

lemma distinct_lora_inputs: "distinct (map fst (lora_inputs a))"
  by (simp add: lora_inputs_def split: option.splits)

lemma lora_first:
  assumes "lora_step a d = Inr d'" and "distinct (map fst d)"
  shows "distinct (map fst d') \<and> (\<forall>ct'. find_node_id ct' d' = find_node_id ct' d) \<and>
      (\<forall>ct' k' kvs'. ct' \<noteq> ''LoraLoader'' \<longrightarrow> settled d k' ct' kvs' \<longrightarrow> settled d' k' ct' kvs') \<and>
      lora_settled a d'"
proof (cases "arg_lora_strength_model a \<noteq> None \<or> arg_lora_strength_clip a \<noteq> None")
  case False
  with assms show ?thesis by (simp add: lora_step_def lora_settled_def)
next
  case True
  obtain k where t: "truthy (find_node_id ''LoraLoader'' d) = Some k"
    using assms(1) True by (cases "truthy (find_node_id ''LoraLoader'' d)") (simp_all add: lora_step_def)
  with assms(1) True have u: "update_node k (lora_inputs a) d = Inr d'"
    by (simp add: lora_step_def)
  note p = find_update_first[OF t u assms(2) distinct_lora_inputs]
  have "truthy (find_node_id ''LoraLoader'' d') = Some k" using p(2)[of "''LoraLoader''"] t by simp
  then have f4: "lora_settled a d'" using True p(3) by (simp add: lora_settled_def)
  have f2: "\<forall>ct'. find_node_id ct' d' = find_node_id ct' d" using p(2) by blast
  have f3: "\<forall>ct' k' kvs'. ct' \<noteq> ''LoraLoader'' \<longrightarrow> settled d k' ct' kvs' \<longrightarrow> settled d' k' ct' kvs'"
    using p(4) by blast
  from p(1) f2 f3 f4 show ?thesis by (intro conjI)
qed

lemma lora_second: "lora_settled a d \<Longrightarrow> lora_step a d = Inr d"
  by (cases "truthy (find_node_id ''LoraLoader'' d)")
     (auto simp: lora_settled_def lora_step_def settled_noop split: if_splits)

lemma lora_settled_mono:
  assumes "lora_settled a d" and "find_node_id ''LoraLoader'' d' = find_node_id ''LoraLoader'' d"
    and "\<And>k kvs. settled d k ''LoraLoader'' kvs \<Longrightarrow> settled d' k ''LoraLoader'' kvs"
  shows "lora_settled a d'"
  using assms
  by (cases "truthy (find_node_id ''LoraLoader'' d)")
     (auto simp: lora_settled_def split: if_splits)

lemma clip_first:
  assumes "clip_step a d = Inr d'" and "distinct (map fst d)"
  shows "distinct (map fst d') \<and> (\<forall>ct'. find_node_id ct' d' = find_node_id ct' d) \<and>
      (\<forall>ct' k' kvs'. ct' \<noteq> ''CLIPSetLastLayer'' \<longrightarrow> settled d k' ct' kvs' \<longrightarrow> settled d' k' ct' kvs') \<and>
      clip_settled a d'"
proof (cases "arg_clip_layer a")
  case None
  with assms show ?thesis by (simp add: clip_step_def clip_settled_def)
next
  case (Some layer)
  obtain k where t: "truthy (find_node_id ''CLIPSetLastLayer'' d) = Some k"
    using assms(1) Some
    by (cases "truthy (find_node_id ''CLIPSetLastLayer'' d)") (simp_all add: clip_step_def)
  with assms(1) Some have u: "update_node k [(''stop_at_clip_layer'', JInt layer)] d = Inr d'"
    by (simp add: clip_step_def)
  have dk: "distinct (map fst [(''stop_at_clip_layer'', JInt layer)])" by simp
  note p = find_update_first[OF t u assms(2) dk]
  have "truthy (find_node_id ''CLIPSetLastLayer'' d') = Some k"
    using p(2)[of "''CLIPSetLastLayer''"] t by simp
  then have f4: "clip_settled a d'" using Some p(3) by (simp add: clip_settled_def)
  have f2: "\<forall>ct'. find_node_id ct' d' = find_node_id ct' d" using p(2) by blast
  have f3: "\<forall>ct' k' kvs'. ct' \<noteq> ''CLIPSetLastLayer'' \<longrightarrow> settled d k' ct' kvs' \<longrightarrow> settled d' k' ct' kvs'"
    using p(4) by blast
  from p(1) f2 f3 f4 show ?thesis by (intro conjI)
qed

lemma clip_second: "clip_settled a d \<Longrightarrow> clip_step a d = Inr d"
  by (cases "arg_clip_layer a"; cases "truthy (find_node_id ''CLIPSetLastLayer'' d)")
     (auto simp: clip_settled_def clip_step_def settled_noop)

lemma clip_settled_mono:
  assumes "clip_settled a d"
    and "find_node_id ''CLIPSetLastLayer'' d' = find_node_id ''CLIPSetLastLayer'' d"
    and "\<And>k kvs. settled d k ''CLIPSetLastLayer'' kvs \<Longrightarrow> settled d' k ''CLIPSetLastLayer'' kvs"
  shows "clip_settled a d'"
  using assms
  by (cases "arg_clip_layer a"; cases "truthy (find_node_id ''CLIPSetLastLayer'' d)")
     (auto simp: clip_settled_def)

subsection \<open>The whole run\<close>

lemma patch_graph_InrD:
  assumes "patch_graph pl fs a ptext ntext doc = (Inr data1, tr1)" and "\<not> arg_add_ipadapter a"
  shows "\<exists>d0 d1 d2. inject_text a ptext ntext doc = Inr d0 \<and> lora_step a d0 = Inr d1 \<and>
           clip_step a d1 = Inr d2 \<and> controlnet_step pl fs a d2 [] = (Inr data1, tr1)"
proof (cases "inject_text a ptext ntext doc")
  case (Inl e)
  with assms show ?thesis by (simp add: patch_graph_def)
next
  case i: (Inr d0)
  show ?thesis
  proof (cases "lora_step a d0")
    case (Inl e)
    with assms i show ?thesis by (simp add: patch_graph_def)
  next
    case l: (Inr d1)
    show ?thesis
    proof (cases "clip_step a d1")
      case (Inl e)
      with assms i l show ?thesis by (simp add: patch_graph_def)
    next
      case c: (Inr d2)
      obtain r tr where cn: "controlnet_step pl fs a d2 [] = (r, tr)"
        by (cases "controlnet_step pl fs a d2 []")
      show ?thesis
      proof (cases r)
        case (Inl e)
        with assms i l c cn show ?thesis by (simp add: patch_graph_def)
      next
        case (Inr d3)
        with assms i l c cn show ?thesis by (simp add: patch_graph_def ipadapter_step_def)
      qed
    qed
  qed
qed

lemma controlnet_step_twice:
  assumes "controlnet_step pl fs a data tr = (Inr data1, tr1)" and "arg_add_controlnet a"
    and "distinct (map fst data)"
    and "truthy (arg_control_image a) = Some control_image"
    and "path_exists fs' (tr' @ [Mkdir (input_dir pl (arg_workflow a))]) (expanduser pl control_image)"
  shows "fst (controlnet_step pl fs' a data1 tr') = Inr data1"
proof -
  from controlnet_first[OF assms(1,2,3)] obtain cid iid aid sid ids' where
    "existing_ids data1 = Inr ids'" "controlnet_settled pl a data1 cid iid aid sid"
    by (elim exE conjE) (rule that, assumption+)
  from controlnet_second[OF this assms(2,4,5)] show ?thesis .
qed

text \<open>
  Claim C3: applying the ControlNet insertion twice gives the graph of applying it
  once. If a run with the ControlNet insertion (and without the IPAdapter insertion)
  succeeds on a workflow and yields \<open>data1\<close>, then the same command line run again on
  \<open>data1\<close>, with the reference image still in place, yields \<open>data1\<close> itself: the same
  ids in the same order with the same records. The loader, the image loader and the
  applier are found and updated in place, no id is allocated, and the sampler keeps
  its wiring. \<open>controlnet_step_twice\<close> above is the same fact for the branch alone.
\<close>

theorem controlnet_twice:
  assumes "patch_graph pl fs a positive_text negative_text (JObj data) = (Inr data1, tr1)"
    and "arg_add_controlnet a" and "\<not> arg_add_ipadapter a"
    and "distinct (map fst data)"
    and "truthy (arg_control_image a) = Some control_image"
    and "path_exists fs' [Mkdir (input_dir pl (arg_workflow a))] (expanduser pl control_image)"
  shows "fst (patch_graph pl fs' a positive_text negative_text (JObj data1)) = Inr data1"
proof -
  let ?CTE = "''CLIPTextEncode''" and ?LL = "''LoraLoader''" and ?CSL = "''CLIPSetLastLayer''"
  let ?p = "arg_pos_node a" and ?n = "arg_neg_node a"
  from patch_graph_InrD[OF assms(1,3)] obtain d0 d1 d2 where
    i: "inject_text a positive_text negative_text (JObj data) = Inr d0"
    and l: "lora_step a d0 = Inr d1" and c: "clip_step a d1 = Inr d2"
    and cn: "controlnet_step pl fs a d2 [] = (Inr data1, tr1)"
    by blast
  note i1 = inject_first[OF i]
  have dd0: "distinct (map fst d0)" by (rule i1(2)[OF assms(4)])
  note l1 = lora_first[OF l dd0]
  from l1 have dd1: "distinct (map fst d1)" by blast
  note c1 = clip_first[OF c dd1]
  from c1 have dd2: "distinct (map fst d2)" by blast
  from controlnet_first[OF cn assms(2) dd2] obtain cid iid aid sid ids' where
    e: "existing_ids data1 = Inr ids'" and cs: "controlnet_settled pl a data1 cid iid aid sid"
    and o: "\<forall>ct' k' kvs'.
              ct' \<notin> {''ControlNetLoader'', ''LoadImage'', ''ControlNetApplyAdvanced'', ''KSampler''} \<longrightarrow>
              find_node_id ct' data1 = find_node_id ct' d2 \<and>
              (settled d2 k' ct' kvs' \<longrightarrow> settled data1 k' ct' kvs')"
    by (elim exE conjE) (rule that, assumption+)
  have text_kept: "settled data1 k ?CTE kvs" if "settled d0 k ?CTE kvs" for k kvs
  proof -
    from l1 that have "settled d1 k ?CTE kvs" by simp
    with c1 have "settled d2 k ?CTE kvs" by simp
    with o show ?thesis by simp
  qed
  have tn: "settled data1 ?n ?CTE [(''text'', JStr negative_text)]"
    by (rule text_kept[OF i1(3)])
  have tp: "?p \<noteq> ?n \<Longrightarrow> settled data1 ?p ?CTE [(''text'', JStr positive_text)]"
    by (rule text_kept[OF i1(4)])
  have r1: "inject_text a positive_text negative_text (JObj data1) = Inr data1"
    by (rule inject_settled[OF tn tp])
  have "lora_settled a d1" using l1 by blast
  then have "lora_settled a d2"
    by (rule lora_settled_mono) (use c1 in simp_all)
  then have "lora_settled a data1"
    by (rule lora_settled_mono) (use o in simp_all)
  then have r2: "lora_step a data1 = Inr data1" by (rule lora_second)
  have "clip_settled a d2" using c1 by blast
  then have "clip_settled a data1"
    by (rule clip_settled_mono) (use o in simp_all)
  then have r3: "clip_step a data1 = Inr data1" by (rule clip_second)
  have r4: "fst (controlnet_step pl fs' a data1 []) = Inr data1"
    by (rule controlnet_second[OF e cs assms(2,5)]) (use assms(6) in simp)
  obtain tr where "controlnet_step pl fs' a data1 [] = (Inr data1, tr)"
    using r4 by (cases "controlnet_step pl fs' a data1 []") simp
  with r1 r2 r3 assms(3) show ?thesis
    by (simp add: patch_graph_def ipadapter_step_def)
qed

theorem controlnet_twice_witness:
  "\<exists>data1 tr1.
     patch_graph plain_paths disk controlnet_args ''X'' ''Y'' (JObj base_graph) = (Inr data1, tr1) \<and>
     map fst data1 = [''3'', ''4'', ''6'', ''7'', ''8'', ''9'', ''10''] \<and>
     fst (patch_graph plain_paths disk controlnet_args ''X'' ''Y'' (JObj data1)) = Inr data1"
proof -
  have ok: "(case patch_graph plain_paths disk controlnet_args ''X'' ''Y'' (JObj base_graph) of
              (Inr data1, tr1) \<Rightarrow> map fst data1 = [''3'', ''4'', ''6'', ''7'', ''8'', ''9'', ''10'']
            | _ \<Rightarrow> False)"
    by code_simp
  then obtain data1 tr1 where
    first: "patch_graph plain_paths disk controlnet_args ''X'' ''Y'' (JObj base_graph) = (Inr data1, tr1)"
    and keys: "map fst data1 = [''3'', ''4'', ''6'', ''7'', ''8'', ''9'', ''10'']"
    by (auto split: prod.splits sum.splits)
  have h: "arg_add_controlnet controlnet_args" "\<not> arg_add_ipadapter controlnet_args"
    "distinct (map fst base_graph)"
    "truthy (arg_control_image controlnet_args) = Some ''img/pose.png''"
    "path_exists disk [Mkdir (input_dir plain_paths (arg_workflow controlnet_args))]
       (expanduser plain_paths ''img/pose.png'')"
    by (simp_all add: controlnet_args_def base_args_def base_graph_def truthy_def disk_def
        plain_paths_def)
  from first keys controlnet_twice[OF first h] show ?thesis by (intro exI conjI)
qed

end
